theory Spec2Isabelle
  imports Complex_Main "HOL-Library.Log_Nat" "HOL-Library.Word"
begin

section \<open>JavaScript numbers\<close>

text \<open>
  Every number of the capture page is an IEEE 754 binary64 value. A finite value is kept
  as the rational it denotes; \<open>round_bin\<close> rounds an exact result to the nearest value
  with a \<open>p\<close>-bit significand (ties to even), with the exponent held at \<open>emin\<close> in the
  subnormal range. The two zeros are identified; the page never divides by a negative zero.
\<close>

definition rne :: "rat \<Rightarrow> int" where
  "rne q = (let f = \<lfloor>q\<rfloor>; r = q - of_int f in
      if r < 1 / 2 then f else if 1 / 2 < r then f + 1 else if even f then f else f + 1)"

definition ilog2 :: "rat \<Rightarrow> int" where
  "ilog2 x = (if 1 \<le> x then int (floorlog 2 (nat \<lfloor>x\<rfloor>)) - 1
              else - int (floorlog 2 (nat (\<lceil>1 / x\<rceil> - 1))))"

definition round_bin :: "nat \<Rightarrow> int \<Rightarrow> rat \<Rightarrow> rat" where
  "round_bin p emin x = (if x = 0 then 0 else
     let e = max (ilog2 \<bar>x\<bar>) emin; u = 2 powi (e - (int p - 1))
     in of_int (rne (x / u)) * u)"

datatype jsnum = Num rat | PInf | NInf | NaN

definition to_double :: "rat \<Rightarrow> jsnum" where
  "to_double x = (let y = round_bin 53 (- 1022) x in
     if 2 ^ 1024 \<le> y then PInf else if y \<le> - (2 ^ 1024) then NInf else Num y)"

text \<open>A store into a \<open>Float32Array\<close> rounds the double to binary32; a read widens it back.\<close>

fun to_float32 :: "jsnum \<Rightarrow> jsnum" where
  "to_float32 (Num x) = (let y = round_bin 24 (- 126) x in
     if 2 ^ 128 \<le> y then PInf else if y \<le> - (2 ^ 128) then NInf else Num y)"
| "to_float32 v = v"

fun jsneg :: "jsnum \<Rightarrow> jsnum" where
  "jsneg (Num a) = Num (- a)"
| "jsneg PInf = NInf"
| "jsneg NInf = PInf"
| "jsneg NaN = NaN"

fun jsadd :: "jsnum \<Rightarrow> jsnum \<Rightarrow> jsnum" where
  "jsadd (Num a) (Num b) = to_double (a + b)"
| "jsadd NaN _ = NaN"
| "jsadd _ NaN = NaN"
| "jsadd PInf NInf = NaN"
| "jsadd NInf PInf = NaN"
| "jsadd PInf _ = PInf"
| "jsadd _ PInf = PInf"
| "jsadd NInf _ = NInf"
| "jsadd _ NInf = NInf"

fun jssub :: "jsnum \<Rightarrow> jsnum \<Rightarrow> jsnum" where
  "jssub (Num a) (Num b) = to_double (a - b)"
| "jssub a b = jsadd a (jsneg b)"

fun jsmul :: "jsnum \<Rightarrow> jsnum \<Rightarrow> jsnum" where
  "jsmul (Num a) (Num b) = to_double (a * b)"
| "jsmul NaN _ = NaN"
| "jsmul _ NaN = NaN"
| "jsmul (Num a) y = (if a = 0 then NaN else if 0 < a then y else jsneg y)"
| "jsmul x (Num b) = (if b = 0 then NaN else if 0 < b then x else jsneg x)"
| "jsmul PInf y = y"
| "jsmul NInf y = jsneg y"

fun jsdiv :: "jsnum \<Rightarrow> jsnum \<Rightarrow> jsnum" where
  "jsdiv (Num a) (Num b) =
     (if b = 0 then (if a = 0 then NaN else if 0 < a then PInf else NInf)
      else to_double (a / b))"
| "jsdiv NaN _ = NaN"
| "jsdiv _ NaN = NaN"
| "jsdiv (Num a) _ = Num 0"
| "jsdiv x (Num b) = (if 0 \<le> b then x else jsneg x)"
| "jsdiv _ _ = NaN"

fun jslt :: "jsnum \<Rightarrow> jsnum \<Rightarrow> bool" where
  "jslt (Num a) (Num b) = (a < b)"
| "jslt NaN _ = False"
| "jslt _ NaN = False"
| "jslt _ NInf = False"
| "jslt PInf _ = False"
| "jslt _ _ = True"

definition jsgt :: "jsnum \<Rightarrow> jsnum \<Rightarrow> bool" where
  "jsgt a b = jslt b a"

text \<open>
  Integer-valued quantities (pixel counts, loop counters, array indices, image sides) are
  natural numbers; \<open>js_nat\<close> is the double they are when they enter the arithmetic.
  A sample of a \<open>Uint8ClampedArray\<close> is a byte.
\<close>

definition js_nat :: "nat \<Rightarrow> jsnum" where
  "js_nat n = to_double (of_nat n)"

definition js_byte :: "8 word \<Rightarrow> jsnum" where
  "js_byte b = Num (of_nat (unat b))"

section \<open>Canvas and images\<close>

text \<open>
  A bitmap (a decoded image or the current video frame) has its two sides and, for every
  canvas size, the RGBA bytes that \<open>getImageData\<close> reads back after \<open>drawImage\<close>
  has drawn the whole bitmap scaled onto a canvas of that size: \<open>4 * w * h\<close> bytes, row by row.
  A data URL is what it decodes to; \<open>onload\<close> fires for a bitmap with positive sides and
  \<open>onerror\<close> otherwise.
\<close>

record bitmap =
  width :: nat
  height :: nat
  scaled :: "nat \<Rightarrow> nat \<Rightarrow> 8 word list"

datatype imageSrc = DataURL "bitmap option"

fun decode :: "imageSrc \<Rightarrow> bitmap option" where
  "decode (DataURL None) = None"
| "decode (DataURL (Some img)) =
     (if 0 < width img \<and> 0 < height img then Some img else None)"

text \<open>The settled state of a promise; \<open>Pending\<close> is a promise that never settles.\<close>

datatype 'a promise = Resolved 'a | Rejected string | Pending

section \<open>Constants of the capture page\<close>

definition BRIGHTNESS_THRESHOLD :: jsnum where
  "BRIGHTNESS_THRESHOLD = Num 25"

definition BLUR_THRESHOLD :: jsnum where
  "BLUR_THRESHOLD = Num 5"

definition OUTPUT_W :: nat where
  "OUTPUT_W = 1024"

definition OUTPUT_H :: nat where
  "OUTPUT_H = 585"

section \<open>Brightness sampler\<close>

definition luminance :: "8 word \<Rightarrow> 8 word \<Rightarrow> 8 word \<Rightarrow> jsnum" where
  "luminance r g b =
     jsadd (jsadd (jsmul (to_double (299 / 1000)) (js_byte r))
                  (jsmul (to_double (587 / 1000)) (js_byte g)))
           (jsmul (to_double (114 / 1000)) (js_byte b))"

text \<open>
  The luminance of the pixel that starts at index \<open>p\<close> of the image data. A read past the
  end of the array is \<open>undefined\<close>, and the sum with it is \<open>NaN\<close>.
\<close>

definition luminance_at :: "8 word list \<Rightarrow> nat \<Rightarrow> jsnum" where
  "luminance_at data p =
     (if p + 2 < length data then luminance (data ! p) (data ! (p + 1)) (data ! (p + 2))
      else NaN)"

function brightness_loop :: "8 word list \<Rightarrow> nat \<Rightarrow> jsnum \<Rightarrow> jsnum" where
  "brightness_loop data i tot =
     (if i < length data
      then brightness_loop data (i + 4)
             (jsadd tot (luminance_at data i))
      else tot)"
  by pat_completeness auto
termination
  by (relation "measure (\<lambda>(data, i, tot). length data - i)") auto

declare brightness_loop.simps [simp del]

text \<open>
  \<open>ctx\<close> tells whether \<open>canvas.getContext("2d")\<close> hands out a context.
\<close>

definition getAverageBrightness :: "bool \<Rightarrow> bitmap \<Rightarrow> jsnum" where
  "getAverageBrightness ctx video =
     (let sampleW = 64; sampleH = 48 in
      if \<not> ctx then Num 255
      else let data = scaled video sampleW sampleH;
               tot = brightness_loop data 0 (Num 0)
           in jsdiv tot (js_nat (sampleW * sampleH)))"

section \<open>Sharpness estimator\<close>

text \<open>
  The grayscale buffer is a \<open>Float32Array\<close> of \<open>w * h\<close> zeros that the first loop fills
  from the image data.
\<close>

function gray_loop :: "8 word list \<Rightarrow> nat \<Rightarrow> jsnum list \<Rightarrow> jsnum list" where
  "gray_loop data i gray =
     (if i < length gray
      then let p = i * 4
           in gray_loop data (i + 1)
                (gray[i := to_float32 (luminance_at data p)])
      else gray)"
  by pat_completeness auto
termination
  by (relation "measure (\<lambda>(data, i, gray). length gray - i)") auto

declare gray_loop.simps [simp del]

text \<open>
  A read of the buffer, \<open>NaN\<close> in the arithmetic when it is past the end, and the
  response of the kernel \<open>[0,1,0 / 1,-4,1 / 0,1,0]\<close> at pixel \<open>(x, y)\<close>.
\<close>

definition gray_at :: "jsnum list \<Rightarrow> nat \<Rightarrow> jsnum" where
  "gray_at gray i = (if i < length gray then gray ! i else NaN)"

definition lap_at :: "nat \<Rightarrow> jsnum list \<Rightarrow> nat \<Rightarrow> nat \<Rightarrow> jsnum" where
  "lap_at w gray x y =
     jsadd (jsadd (jsadd (jsadd (gray_at gray ((y - 1) * w + x))
                                (gray_at gray (y * w + (x - 1))))
                         (jsmul (Num (- 4)) (gray_at gray (y * w + x))))
                  (gray_at gray (y * w + (x + 1))))
           (gray_at gray ((y + 1) * w + x))"

text \<open>
  The two nested loops carry \<open>sum\<close>, \<open>sumSq\<close> and \<open>count\<close>, here the triple
  \<open>(s, sq, c)\<close>. Both loop variables start at 1, so \<open>x < w - 1\<close> on natural numbers
  agrees with the source also for \<open>w = 0\<close>.
\<close>

function inner_loop ::
  "nat \<Rightarrow> jsnum list \<Rightarrow> nat \<Rightarrow> nat \<Rightarrow> jsnum \<times> jsnum \<times> nat \<Rightarrow> jsnum \<times> jsnum \<times> nat" where
  "inner_loop w gray y x (s, sq, c) =
     (if x < w - 1
      then let lap = lap_at w gray x y
           in inner_loop w gray y (x + 1) (jsadd s lap, jsadd sq (jsmul lap lap), c + 1)
      else (s, sq, c))"
  by pat_completeness auto
termination
  by (relation "measure (\<lambda>(w, gray, y, x, a). w - x)") auto

declare inner_loop.simps [simp del]

function outer_loop ::
  "nat \<Rightarrow> nat \<Rightarrow> jsnum list \<Rightarrow> nat \<Rightarrow> jsnum \<times> jsnum \<times> nat \<Rightarrow> jsnum \<times> jsnum \<times> nat" where
  "outer_loop w h gray y a =
     (if y < h - 1
      then outer_loop w h gray (y + 1) (inner_loop w gray y 1 a)
      else a)"
  by pat_completeness auto
termination
  by (relation "measure (\<lambda>(w, h, gray, y, a). h - y)") auto

declare outer_loop.simps [simp del]

definition variance_of :: "jsnum \<times> jsnum \<times> nat \<Rightarrow> jsnum" where
  "variance_of a =
     (case a of (s, sq, c) \<Rightarrow>
        let mean = jsdiv s (js_nat c)
        in jssub (jsdiv sq (js_nat c)) (jsmul mean mean))"

text \<open>The statistics of a \<open>w\<close> by \<open>h\<close> grayscale buffer: lines 83 to 102 of the page.\<close>

definition laplacianVariance :: "nat \<Rightarrow> nat \<Rightarrow> jsnum list \<Rightarrow> jsnum" where
  "laplacianVariance w h gray = variance_of (outer_loop w h gray 1 (Num 0, Num 0, 0))"

fun mathRound :: "jsnum \<Rightarrow> jsnum" where
  "mathRound (Num x) = Num (of_int \<lfloor>x + 1 / 2\<rfloor>)"
| "mathRound v = v"

definition scaledHeight :: "bitmap \<Rightarrow> nat \<Rightarrow> jsnum" where
  "scaledHeight img w =
     mathRound (jsmul (jsdiv (js_nat (height img)) (js_nat (width img))) (js_nat w))"

text \<open>
  The \<open>onload\<close> handler. The context is asserted non-null, so without a context the
  handler throws; \<open>getImageData\<close> throws for a canvas height that is not a positive
  number. An exception in the handler leaves the promise unsettled.
\<close>

definition laplacian_onload :: "bool \<Rightarrow> bitmap \<Rightarrow> jsnum promise" where
  "laplacian_onload ctx img =
     (let w = 160 in
      case scaledHeight img w of
        Num hv \<Rightarrow>
          if \<not> ctx \<or> hv \<le> 0 then Pending
          else let h = nat \<lfloor>hv\<rfloor>;
                   data = scaled img w h;
                   gray = gray_loop data 0 (replicate (w * h) (Num 0))
               in Resolved (laplacianVariance w h gray)
      | _ \<Rightarrow> Pending)"

text \<open>The promise has no \<open>onerror\<close> handler: an image that fails to load never settles it.\<close>

definition getLaplacianVariance :: "bool \<Rightarrow> imageSrc \<Rightarrow> jsnum promise" where
  "getLaplacianVariance ctx imageSrc =
     (case decode imageSrc of
        None \<Rightarrow> Pending
      | Some img \<Rightarrow> laplacian_onload ctx img)"

text \<open>
  The estimator in the words of the specification. The kernel is a 3 by 3 table of
  coefficients; convolving it at pixel \<open>(x, y)\<close> of a \<open>w\<close> pixels wide buffer sums,
  row by row, the nine products of a coefficient with the pixel one step up or down and left
  or right of \<open>(x, y)\<close>. The interior pixels are listed in row order; the variance of a
  list of responses is \<open>mean(response\<^sup>2) - mean(response)\<^sup>2\<close>, summed from the left.
  The grayscale buffer holds, pixel by pixel, the luminance of the image data rounded to
  binary32.
\<close>

definition LAPLACIAN :: "int list list" where
  "LAPLACIAN = [[0, 1, 0], [1, - 4, 1], [0, 1, 0]]"

definition convolve3 :: "int list list \<Rightarrow> nat \<Rightarrow> jsnum list \<Rightarrow> nat \<Rightarrow> nat \<Rightarrow> jsnum" where
  "convolve3 k w gray x y =
     foldl jsadd (Num 0)
       (concat (map (\<lambda>j. map (\<lambda>i. jsmul (Num (of_int (k ! j ! i)))
                                     (gray_at gray ((y + j - 1) * w + (x + i - 1))))
                             [0..<3])
                    [0..<3]))"

definition interior :: "nat \<Rightarrow> nat \<Rightarrow> (nat \<times> nat) list" where
  "interior w h = concat (map (\<lambda>y. map (\<lambda>x. (x, y)) [1..<w - 1]) [1..<h - 1])"

definition kernel_responses ::
  "int list list \<Rightarrow> nat \<Rightarrow> nat \<Rightarrow> jsnum list \<Rightarrow> jsnum list" where
  "kernel_responses k w h gray = map (\<lambda>(x, y). convolve3 k w gray x y) (interior w h)"

definition mean_of :: "jsnum list \<Rightarrow> jsnum" where
  "mean_of rs = jsdiv (foldl jsadd (Num 0) rs) (js_nat (length rs))"

definition spec_variance :: "jsnum list \<Rightarrow> jsnum" where
  "spec_variance rs =
     jssub (mean_of (map (\<lambda>r. jsmul r r) rs)) (jsmul (mean_of rs) (mean_of rs))"

text \<open>What the first loop stores at index \<open>i\<close> of the buffer, and the buffer it leaves.\<close>

definition gray_sample :: "8 word list \<Rightarrow> nat \<Rightarrow> jsnum" where
  "gray_sample data i =
     to_float32 (luminance_at data (i * 4))"

definition grayscale :: "8 word list \<Rightarrow> nat \<Rightarrow> jsnum list" where
  "grayscale data n = map (gray_sample data) [0..<n]"

text \<open>
  The responses as the loops compute them, through \<open>lap_at\<close>: all of them in the order
  of the loops, and those of one row.
\<close>

definition responses :: "nat \<Rightarrow> nat \<Rightarrow> jsnum list \<Rightarrow> jsnum list" where
  "responses w h gray = map (\<lambda>(x, y). lap_at w gray x y) (interior w h)"

definition row_responses :: "nat \<Rightarrow> jsnum list \<Rightarrow> nat \<Rightarrow> jsnum list" where
  "row_responses w gray y = map (\<lambda>x. lap_at w gray x y) [1..<w - 1]"

section \<open>Capture controller: state\<close>

text \<open>
  The normalized artifact is the PNG data URL of the output canvas: the canvas sides, the
  encoding, and the one \<open>drawImage\<close> call that painted it (source rectangle, destination
  rectangle, source bitmap).
\<close>

record drawCall =
  sx :: jsnum
  sy :: jsnum
  sw :: jsnum
  sh :: jsnum
  dx :: nat
  dy :: nat
  dw :: nat
  dh :: nat

record artifact =
  canvas_width :: nat
  canvas_height :: nat
  mime :: string
  drawn :: drawCall
  source :: bitmap

record state =
  capturedImage :: "artifact option"
  brightness :: jsnum
  blurWarning :: "string option"
  processing :: bool
  captureCount :: nat
  showFlash :: bool

definition initial :: state where
  "initial = \<lparr>capturedImage = None, brightness = Num 255, blurWarning = None,
              processing = False, captureCount = 0, showFlash = False\<rparr>"

definition tooDark :: "state \<Rightarrow> bool" where
  "tooDark s = jslt (brightness s) BRIGHTNESS_THRESHOLD"

text \<open>
  The component function runs at every render, and the closures it creates hold the state
  values of that render: \<open>tooDark\<close> is computed from the \<open>brightness\<close> of the render,
  and the polling effect is set up or cleared by the render according to its
  \<open>capturedImage\<close>. The setters act on the state of the moment. So every piece of code
  below that reads a state variable takes two states: \<open>seen\<close>, the state that the last
  render saw, and \<open>s\<close>, the state that the setters update.
\<close>

text \<open>
  One tick of the polling interval. The interval exists only while the last render held no
  still; \<open>video\<close> is the webcam's video element, if any, with its \<open>readyState\<close>.
\<close>

definition tick :: "state \<Rightarrow> bool \<Rightarrow> (nat \<times> bitmap) option \<Rightarrow> state \<Rightarrow> state" where
  "tick seen ctx video s =
     (if capturedImage seen \<noteq> None then s
      else case video of
             None \<Rightarrow> s
           | Some (readyState, v) \<Rightarrow>
               if 2 \<le> readyState then s\<lparr>brightness := getAverageBrightness ctx v\<rparr> else s)"

text \<open>A tick on a page that has rendered its state: the last render saw \<open>s\<close> itself.\<close>

definition poll :: "bool \<Rightarrow> (nat \<times> bitmap) option \<Rightarrow> state \<Rightarrow> state" where
  "poll ctx video s = tick s ctx video s"
section \<open>Frame normalizer\<close>

text \<open>The crop rectangle \<open>(sx, sy, sw, sh)\<close>: lines 118 to 135 of the page.\<close>

definition centerCrop :: "bitmap \<Rightarrow> jsnum \<times> jsnum \<times> jsnum \<times> jsnum" where
  "centerCrop img =
     (let targetRatio = jsdiv (js_nat OUTPUT_W) (js_nat OUTPUT_H);
          srcRatio = jsdiv (js_nat (width img)) (js_nat (height img))
      in if jsgt srcRatio targetRatio
         then let sw' = jsmul (js_nat (height img)) targetRatio;
                  sx' = jsdiv (jssub (js_nat (width img)) sw') (Num 2)
              in (sx', Num 0, sw', js_nat (height img))
         else let sh' = jsdiv (js_nat (width img)) targetRatio;
                  sy' = jsdiv (jssub (js_nat (height img)) sh') (Num 2)
              in (Num 0, sy', js_nat (width img), sh'))"

definition resize_onload :: "bool \<Rightarrow> bitmap \<Rightarrow> artifact promise" where
  "resize_onload ctx img =
     (case centerCrop img of (sx', sy', sw', sh') \<Rightarrow>
        if \<not> ctx then Rejected ''Canvas context unavailable''
        else Resolved
          \<lparr>canvas_width = OUTPUT_W, canvas_height = OUTPUT_H, mime = ''image/png'',
           drawn = \<lparr>sx = sx', sy = sy', sw = sw', sh = sh',
                     dx = 0, dy = 0, dw = OUTPUT_W, dh = OUTPUT_H\<rparr>,
           source = img\<rparr>)"

definition resizeImage :: "bool \<Rightarrow> imageSrc \<Rightarrow> artifact promise" where
  "resizeImage ctx imageSrc =
     (case decode imageSrc of
        None \<Rightarrow> Rejected ''Failed to load image for resize''
      | Some img \<Rightarrow> resize_onload ctx img)"

text \<open>The factors by which \<open>drawImage\<close> scales the source rectangle onto the destination.\<close>

definition scaleX :: "drawCall \<Rightarrow> jsnum" where
  "scaleX d = jsdiv (js_nat (dw d)) (sw d)"

definition scaleY :: "drawCall \<Rightarrow> jsnum" where
  "scaleY d = jsdiv (js_nat (dh d)) (sh d)"

section \<open>Capture controller: handlers\<close>

text \<open>
  \<open>handleCapture\<close> is an async function with two awaits. Each of its three pieces runs
  without interruption. The first piece tests \<open>tooDark\<close> and \<open>processing\<close> as its
  closure holds them, that is as the last render saw them (the callback is memoized on
  exactly these two values), and then calls setters on the state of the moment. It ends at
  \<open>await getLaplacianVariance(imageSrc)\<close> and yields that image source, or returns and
  yields \<open>None\<close>. The second piece ends at \<open>await resizeImage(imageSrc)\<close> and yields
  \<open>True\<close>, or returns and yields \<open>False\<close>; the third runs to the end. The second and
  the third piece read no state variable: they call setters only.
\<close>

text \<open>The warning text; the dash of the page is written as a hyphen here.\<close>

definition blurMessage :: string where
  "blurMessage = ''Too blurry - hold your phone steady and try again''"

definition handleCapture_begin ::
  "state \<Rightarrow> imageSrc option \<Rightarrow> state \<Rightarrow> state \<times> imageSrc option" where
  "handleCapture_begin seen screenshot s =
     (if tooDark seen \<or> processing seen then (s, None)
      else let s1 = s\<lparr>blurWarning := None, processing := True\<rparr>
           in case screenshot of
                None \<Rightarrow> (s1\<lparr>processing := False\<rparr>, None)
              | Some imageSrc \<Rightarrow> (s1, Some imageSrc))"

text \<open>The first piece on a page that has rendered its state.\<close>

definition handleCapture_start :: "imageSrc option \<Rightarrow> state \<Rightarrow> state \<times> imageSrc option" where
  "handleCapture_start screenshot s = handleCapture_begin s screenshot s"

definition handleCapture_variance :: "jsnum \<Rightarrow> state \<Rightarrow> state \<times> bool" where
  "handleCapture_variance variance s =
     (if jslt variance BLUR_THRESHOLD
      then (s\<lparr>blurWarning := Some blurMessage, processing := False\<rparr>, False)
      else (s, True))"

definition handleCapture_resized :: "artifact \<Rightarrow> state \<Rightarrow> state" where
  "handleCapture_resized resized s =
     s\<lparr>showFlash := True, capturedImage := Some resized,
       captureCount := captureCount s + 1, processing := False\<rparr>"

definition handleRetake :: "state \<Rightarrow> state" where
  "handleRetake s = s\<lparr>capturedImage := None, blurWarning := None\<rparr>"

text \<open>
  One capture attempt on a page that has rendered its state, run to its end with nothing
  in between. \<open>ctx1\<close> and \<open>ctx2\<close> tell
  whether the canvas of the estimator and the canvas of the normalizer get a context.
  The attempt returns, throws, or stays suspended at an await that never settles.
\<close>

datatype completion = Returned | Threw string | Suspended

definition handleCapture ::
  "bool \<Rightarrow> bool \<Rightarrow> imageSrc option \<Rightarrow> state \<Rightarrow> state \<times> completion" where
  "handleCapture ctx1 ctx2 screenshot s =
     (case handleCapture_start screenshot s of
        (s1, None) \<Rightarrow> (s1, Returned)
      | (s1, Some imageSrc) \<Rightarrow>
          (case getLaplacianVariance ctx1 imageSrc of
             Pending \<Rightarrow> (s1, Suspended)
           | Rejected e \<Rightarrow> (s1, Threw e)
           | Resolved variance \<Rightarrow>
               (case handleCapture_variance variance s1 of
                  (s2, False) \<Rightarrow> (s2, Returned)
                | (s2, True) \<Rightarrow>
                    (case resizeImage ctx2 imageSrc of
                       Pending \<Rightarrow> (s2, Suspended)
                     | Rejected e \<Rightarrow> (s2, Threw e)
                     | Resolved resized \<Rightarrow> (handleCapture_resized resized s2, Returned)))))"

text \<open>
  The page as a transition system: the state of the component, the state that the last
  render saw, and the capture attempts that are suspended, each at its first or at its
  second await. An event is a call of the capture handler, the settling of the promise that
  the \<open>i\<close>-th suspended attempt waits for, a tick of the brightness interval, a tap on
  retake, the timeout that ends the flash, or a render, which brings the closures up to
  date with the state.
\<close>

datatype await = AwaitVariance imageSrc | AwaitResize imageSrc

record page =
  ui :: state
  rendered :: state
  suspended :: "await list"

datatype event =
    Capture "imageSrc option"
  | Settle nat bool
  | Tick bool "(nat \<times> bitmap) option"
  | Retake
  | FlashTimeout
  | Render

definition drop_at :: "nat \<Rightarrow> 'a list \<Rightarrow> 'a list" where
  "drop_at i xs = take i xs @ drop (i + 1) xs"

definition settle :: "nat \<Rightarrow> bool \<Rightarrow> page \<Rightarrow> page" where
  "settle i ctx pg =
     (if \<not> i < length (suspended pg) then pg
      else case suspended pg ! i of
             AwaitVariance imageSrc \<Rightarrow>
               (case getLaplacianVariance ctx imageSrc of
                  Pending \<Rightarrow> pg
                | Rejected e \<Rightarrow> pg\<lparr>suspended := drop_at i (suspended pg)\<rparr>
                | Resolved variance \<Rightarrow>
                    (case handleCapture_variance variance (ui pg) of
                       (s, False) \<Rightarrow> pg\<lparr>ui := s, suspended := drop_at i (suspended pg)\<rparr>
                     | (s, True) \<Rightarrow>
                         pg\<lparr>ui := s, suspended := (suspended pg)[i := AwaitResize imageSrc]\<rparr>))
           | AwaitResize imageSrc \<Rightarrow>
               (case resizeImage ctx imageSrc of
                  Pending \<Rightarrow> pg
                | Rejected e \<Rightarrow> pg\<lparr>suspended := drop_at i (suspended pg)\<rparr>
                | Resolved resized \<Rightarrow>
                    pg\<lparr>ui := handleCapture_resized resized (ui pg),
                       suspended := drop_at i (suspended pg)\<rparr>))"

fun fire :: "event \<Rightarrow> page \<Rightarrow> page" where
  "fire (Capture screenshot) pg =
     (case handleCapture_begin (rendered pg) screenshot (ui pg) of
        (s, None) \<Rightarrow> pg\<lparr>ui := s\<rparr>
      | (s, Some imageSrc) \<Rightarrow>
          pg\<lparr>ui := s, suspended := suspended pg @ [AwaitVariance imageSrc]\<rparr>)"
| "fire (Settle i ctx) pg = settle i ctx pg"
| "fire (Tick ctx video) pg = pg\<lparr>ui := tick (rendered pg) ctx video (ui pg)\<rparr>"
| "fire Retake pg = pg\<lparr>ui := handleRetake (ui pg)\<rparr>"
| "fire FlashTimeout pg = pg\<lparr>ui := (ui pg)\<lparr>showFlash := False\<rparr>\<rparr>"
| "fire Render pg = pg\<lparr>rendered := ui pg\<rparr>"

definition start_page :: page where
  "start_page = \<lparr>ui = initial, rendered = initial, suspended = []\<rparr>"

text \<open>
  The page waits for an image that will never load, and the last render has seen
  \<open>processing\<close> set.
\<close>

definition stuck :: "page \<Rightarrow> bool" where
  "stuck pg \<longleftrightarrow>
     suspended pg = [AwaitVariance (DataURL None)]
     \<and> processing (ui pg) \<and> processing (rendered pg)"



section \<open>Upload route\<close>

text \<open>
  \<open>ALLOWED_TYPES\<close> is an object literal, and \<open>ALLOWED_TYPES[file.type]\<close> is a property
  read: it finds the three own keys and also every property the literal inherits from
  \<open>Object.prototype\<close>. An inherited value is a function or an object, hence truthy; it is
  kept here as the text that the template literal of the file name turns it into.
\<close>

datatype jsvalue = Undefined | Str string | Inherited string

definition native_function :: "string \<Rightarrow> string" where
  "native_function name = ''function '' @ name @ ''() { [native code] }''"

definition Object_prototype :: "string \<Rightarrow> jsvalue" where
  "Object_prototype key =
     (if key = ''constructor'' then Inherited (native_function ''Object'')
      else if key = ''__proto__'' then Inherited ''[object Object]''
      else if key \<in> {''hasOwnProperty'', ''isPrototypeOf'', ''propertyIsEnumerable'',
                      ''toLocaleString'', ''toString'', ''valueOf'', ''__defineGetter__'',
                      ''__defineSetter__'', ''__lookupGetter__'', ''__lookupSetter__''}
      then Inherited (native_function key)
      else Undefined)"

definition ALLOWED_TYPES :: "string \<Rightarrow> jsvalue" where
  "ALLOWED_TYPES key =
     (if key = ''image/png'' then Str ''.png''
      else if key = ''image/jpeg'' then Str ''.jpg''
      else if key = ''image/webp'' then Str ''.webp''
      else Object_prototype key)"

definition MAX_FILE_SIZE :: nat where
  "MAX_FILE_SIZE = 10 * 1024 * 1024"

record jsFile =
  ftype :: string
  content :: "8 word list"

definition fsize :: "jsFile \<Rightarrow> nat" where
  "fsize f = length (content f)"

text \<open>\<open>formData.get("image")\<close> is \<open>null\<close>, a string or a \<open>File\<close>.\<close>

datatype formValue = Absent | Text string | FileValue jsFile

text \<open>A request whose body is no form data makes \<open>request.formData()\<close> throw.\<close>

datatype request = NotFormData string | Form formValue

datatype body =
    NoImage
  | UnsupportedType string
  | TooLarge nat
  | ServerError string
  | Stored string string nat string

record response =
  status :: nat
  json :: body

text \<open>
  The server side: the uploads directory, the identifier that \<open>uuidv4()\<close> draws, and
  the error, if any, with which \<open>mkdir\<close> and \<open>writeFile\<close> fail.
\<close>

record server =
  UPLOADS_DIR :: string
  uuid :: string
  mkdir_error :: "string option"
  writeFile_error :: "string option"

fun truthy :: "jsvalue \<Rightarrow> bool" where
  "truthy Undefined = False"
| "truthy (Str s) = (s \<noteq> [])"
| "truthy (Inherited s) = True"

fun template :: "jsvalue \<Rightarrow> string" where
  "template Undefined = ''undefined''"
| "template (Str s) = s"
| "template (Inherited s) = s"

text \<open>
  The response, and the files written as pairs of path and content. The file name has no
  path separator, so \<open>path.join\<close> puts one separator between directory and name.
\<close>

definition POST :: "server \<Rightarrow> request \<Rightarrow> response \<times> (string \<times> 8 word list) list" where
  "POST srv req =
     (case req of
        NotFormData msg \<Rightarrow> (\<lparr>status = 500, json = ServerError msg\<rparr>, [])
      | Form Absent \<Rightarrow> (\<lparr>status = 400, json = NoImage\<rparr>, [])
      | Form (Text t) \<Rightarrow> (\<lparr>status = 400, json = NoImage\<rparr>, [])
      | Form (FileValue f) \<Rightarrow>
          (let ext = ALLOWED_TYPES (ftype f) in
           if \<not> truthy ext then (\<lparr>status = 400, json = UnsupportedType (ftype f)\<rparr>, [])
           else if MAX_FILE_SIZE < fsize f then (\<lparr>status = 400, json = TooLarge (fsize f)\<rparr>, [])
           else case mkdir_error srv of
                  Some msg \<Rightarrow> (\<lparr>status = 500, json = ServerError msg\<rparr>, [])
                | None \<Rightarrow>
                    (let filename = uuid srv @ template ext;
                         filepath = UPLOADS_DIR srv @ ''/'' @ filename
                     in case writeFile_error srv of
                          Some msg \<Rightarrow> (\<lparr>status = 500, json = ServerError msg\<rparr>, [])
                        | None \<Rightarrow>
                            (\<lparr>status = 201,
                              json = Stored filename (''/uploads/'' @ filename) (fsize f) (ftype f)\<rparr>,
                             [(filepath, content f)]))))"

section \<open>Representable numbers\<close>

text \<open>
  The finite values of a binary format with a \<open>p\<close>-bit significand and least exponent
  \<open>emin\<close>, and the doubles among the rationals.
\<close>

definition finite_float :: "nat \<Rightarrow> int \<Rightarrow> rat \<Rightarrow> bool" where
  "finite_float p emin x \<longleftrightarrow>
     (\<exists>m k. x = of_int m * 2 powi k \<and> \<bar>m\<bar> < 2 ^ p \<and> emin - (int p - 1) \<le> k)"

definition is_double :: "rat \<Rightarrow> bool" where
  "is_double x \<longleftrightarrow> finite_float 53 (- 1022) x \<and> \<bar>x\<bar> < 2 ^ 1024"

text \<open>A value that an operation on doubles can return: a double, an infinity or \<open>NaN\<close>.\<close>

fun js_value :: "jsnum \<Rightarrow> bool" where
  "js_value (Num x) = is_double x"
| "js_value v = True"

text \<open>A double of moderate size: what the estimator's buffer holds.\<close>

definition small_double :: "rat \<Rightarrow> bool" where
  "small_double x \<longleftrightarrow> finite_float 53 (- 1022) x \<and> \<bar>x\<bar> \<le> 2 ^ 20"

section \<open>Rounding: exponent, exactness, monotonicity\<close>

lemma ilog2_bounds_ge1:
  assumes "1 \<le> x"
  shows "2 powi (ilog2 x) \<le> x \<and> x < 2 powi (ilog2 x + 1)"
proof -
  define n where "n = nat \<lfloor>x\<rfloor>"
  have n1: "1 \<le> n" using assms by (simp add: n_def le_floor_iff le_nat_iff)
  define k where "k = floorlog 2 n"
  have b: "2 ^ (k - 1) \<le> n \<and> n < 2 ^ k"
    using floorlog_bounds[of n 2] n1 by (simp add: k_def)
  have k1: "1 \<le> k" using b n1 by (cases k) auto
  have e: "ilog2 x = int k - 1" using assms by (simp add: ilog2_def n_def k_def)
  have nx: "of_nat n \<le> x" using assms by (simp add: n_def)
  have xn: "x < of_nat n + 1"
  proof -
    have "0 \<le> \<lfloor>x\<rfloor>" using assms by simp
    then have "(of_nat n :: rat) = of_int \<lfloor>x\<rfloor>" by (simp add: n_def)
    then show ?thesis using floor_correct[of x] by simp
  qed
  have p1: "(2::rat) powi (int k - 1) = 2 ^ (k - 1)"
    using k1 by (metis of_nat_1 of_nat_diff power_int_of_nat)
  have lo: "(2::rat) ^ (k - 1) \<le> of_nat n"
    using b by (metis of_nat_le_iff of_nat_numeral of_nat_power)
  have p2: "(2::rat) powi (int k - 1 + 1) = 2 ^ k" by (simp add: power_int_of_nat)
  have up: "of_nat n + 1 \<le> (2::rat) ^ k"
  proof -
    have "n + 1 \<le> 2 ^ k" using b by simp
    then have "(of_nat (n + 1) :: rat) \<le> of_nat (2 ^ k)" by (simp only: of_nat_le_iff)
    then show ?thesis by simp
  qed
  have "2 powi (ilog2 x) \<le> x" unfolding e p1 using lo nx by linarith
  moreover have "x < 2 powi (ilog2 x + 1)" unfolding e p2 using up xn by linarith
  ultimately show ?thesis by simp
qed

lemma ilog2_bounds_lt1:
  assumes "0 < x" "x < 1"
  shows "2 powi (ilog2 x) \<le> x \<and> x < 2 powi (ilog2 x + 1)"
proof -
  define y where "y = 1 / x"
  have y1: "1 < y" using assms by (simp add: y_def)
  define n where "n = nat (\<lceil>y\<rceil> - 1)"
  have cy: "2 \<le> \<lceil>y\<rceil>" using y1 by (simp add: le_ceiling_iff)
  have n1: "1 \<le> n" using cy unfolding n_def by linarith
  define k where "k = floorlog 2 n"
  have b: "2 ^ (k - 1) \<le> n \<and> n < 2 ^ k"
    using floorlog_bounds[of n 2] n1 by (simp add: k_def)
  have k1: "1 \<le> k" using b n1 by (cases k) auto
  have e: "ilog2 x = - int k" using assms by (simp add: ilog2_def n_def k_def y_def)
  have yn: "y \<le> of_nat n + 1"
  proof -
    have "y \<le> of_int \<lceil>y\<rceil>" by simp
    also have "of_int \<lceil>y\<rceil> = (of_nat n + 1 :: rat)" using cy by (simp add: n_def)
    finally show ?thesis .
  qed
  have ny: "of_nat n < y"
  proof -
    have "of_int (\<lceil>y\<rceil> - 1) < y" using ceiling_correct[of y] by simp
    moreover have "of_int (\<lceil>y\<rceil> - 1) = (of_nat n :: rat)" using cy by (simp add: n_def)
    ultimately show ?thesis by simp
  qed
  have up: "of_nat n + 1 \<le> (2::rat) ^ k"
  proof -
    have "n + 1 \<le> 2 ^ k" using b by simp
    then have "(of_nat (n + 1) :: rat) \<le> of_nat (2 ^ k)" by (simp only: of_nat_le_iff)
    then show ?thesis by simp
  qed
  have lo: "(2::rat) ^ (k - 1) \<le> of_nat n"
    using b by (metis of_nat_le_iff of_nat_numeral of_nat_power)
  have ylek: "y \<le> 2 ^ k" using yn up by linarith
  have kly: "2 ^ (k - 1) < y" using lo ny by linarith
  have x1: "1 / 2 ^ k \<le> x"
  proof -
    have "1 / 2 ^ k \<le> 1 / y" using ylek y1 by (simp add: frac_le)
    then show ?thesis using assms by (simp add: y_def)
  qed
  have x2: "x < 1 / 2 ^ (k - 1)"
  proof -
    have "1 / y < 1 / 2 ^ (k - 1)" using kly by (simp add: frac_less2)
    then show ?thesis using assms by (simp add: y_def)
  qed
  have p1: "(2::rat) powi (- int k) = 1 / 2 ^ k"
    by (simp add: power_int_minus power_int_of_nat divide_inverse)
  have p2: "(2::rat) powi (- int k + 1) = 1 / 2 ^ (k - 1)"
  proof -
    have "- int k + 1 = - int (k - 1)" using k1 by simp
    then show ?thesis by (simp only: power_int_minus power_int_of_nat divide_inverse mult_1)
  qed
  show ?thesis using e x1 x2 p1 p2 by simp
qed

lemma ilog2_bounds:
  "0 < x \<Longrightarrow> 2 powi (ilog2 x) \<le> x \<and> x < 2 powi (ilog2 x + 1)"
  using ilog2_bounds_ge1 ilog2_bounds_lt1 by (cases "1 \<le> x") auto

lemma ilog2_unique:
  assumes "0 < x" "2 powi e \<le> x" "x < 2 powi (e + 1)"
  shows "ilog2 x = e"
proof -
  let ?i = "ilog2 x"
  have b: "2 powi ?i \<le> x" "x < 2 powi (?i + 1)" using ilog2_bounds[OF assms(1)] by auto
  have "(2::rat) powi e < 2 powi (?i + 1)" using assms(2) b(2) by simp
  then have 1: "e < ?i + 1"
    using power_int_increasing[of "?i + 1" e "2::rat"] by (cases "e < ?i + 1") auto
  have "(2::rat) powi ?i < 2 powi (e + 1)" using assms(3) b(1) by simp
  then have 2: "?i < e + 1"
    using power_int_increasing[of "e + 1" ?i "2::rat"] by (cases "?i < e + 1") auto
  show ?thesis using 1 2 by simp
qed

lemma rne_of_int: "rne (of_int n) = n"
  by (simp add: rne_def)

lemma rne_cases: "rne q = \<lfloor>q\<rfloor> \<or> rne q = \<lfloor>q\<rfloor> + 1"
  by (simp add: rne_def Let_def)

lemma rne_floor_le: "\<lfloor>q\<rfloor> \<le> rne q"
  using rne_cases[of q] by auto

lemma rne_le_floor: "rne q \<le> \<lfloor>q\<rfloor> + 1"
  using rne_cases[of q] by auto

lemma rne_mono:
  assumes "q \<le> q'"
  shows "rne q \<le> rne q'"
proof (cases "\<lfloor>q\<rfloor> = \<lfloor>q'\<rfloor>")
  case True
  have "q - of_int \<lfloor>q\<rfloor> \<le> q' - of_int \<lfloor>q\<rfloor>" using assms by simp
  then show ?thesis using True by (auto simp: rne_def Let_def)
next
  case False
  then have "\<lfloor>q\<rfloor> + 1 \<le> \<lfloor>q'\<rfloor>" using floor_mono[OF assms] by simp
  then show ?thesis using rne_le_floor[of q] rne_floor_le[of q'] by linarith
qed

lemma rne_le: "q \<le> of_int b \<Longrightarrow> rne q \<le> b"
  using rne_mono[of q "of_int b"] by (simp add: rne_of_int)

lemma rne_ge: "of_int a \<le> q \<Longrightarrow> a \<le> rne q"
  using rne_mono[of "of_int a" q] by (simp add: rne_of_int)

lemma two_powi_pos: "0 < (2::rat) powi k"
  by simp

lemma ilog2_less:
  assumes "0 < x" "x < 2 powi n"
  shows "ilog2 x < n"
proof (rule ccontr)
  assume "\<not> ilog2 x < n"
  then have "(2::rat) powi n \<le> 2 powi (ilog2 x)" by (simp add: power_int_increasing)
  then show False using ilog2_bounds[OF assms(1)] assms(2) by linarith
qed

lemma ilog2_ge:
  assumes "0 < x" "2 powi n \<le> x"
  shows "n \<le> ilog2 x"
proof (rule ccontr)
  assume "\<not> n \<le> ilog2 x"
  then have "(2::rat) powi (ilog2 x + 1) \<le> 2 powi n" by (simp add: power_int_increasing)
  then show False using ilog2_bounds[OF assms(1)] assms(2) by linarith
qed

lemma round_bin_exact:
  assumes "x = of_int m * 2 powi k" "\<bar>m\<bar> < 2 ^ p" "emin - (int p - 1) \<le> k"
  shows "round_bin p emin x = x"
proof (cases "x = 0")
  case True
  then show ?thesis by (simp add: round_bin_def)
next
  case False
  define e where "e = max (ilog2 \<bar>x\<bar>) emin"
  define j where "j = e - (int p - 1)"
  have ax: "\<bar>x\<bar> = of_int \<bar>m\<bar> * 2 powi k"
    by (simp add: assms(1) abs_mult)
  have "of_int \<bar>m\<bar> < (2::rat) ^ p"
    using assms(2) by (metis of_int_less_iff of_int_numeral of_int_power)
  then have "\<bar>x\<bar> < 2 ^ p * 2 powi k" unfolding ax by simp
  also have "\<dots> = 2 powi (int p + k)" by (simp add: power_int_add power_int_of_nat)
  finally have "ilog2 \<bar>x\<bar> < int p + k" using False by (intro ilog2_less) auto
  then have jk: "j \<le> k" using assms(3) by (simp add: j_def e_def)
  have "x / 2 powi j = of_int m * 2 powi (k - j)"
    by (simp add: assms(1) power_int_diff)
  also have "\<dots> = of_int (m * 2 ^ nat (k - j))"
    using jk by (simp add: power_int_def)
  finally have q: "x / 2 powi j = of_int (m * 2 ^ nat (k - j))" .
  have "round_bin p emin x = of_int (rne (x / 2 powi j)) * 2 powi j"
    using False by (simp add: round_bin_def Let_def e_def j_def)
  also have "\<dots> = (x / 2 powi j) * 2 powi j"
    unfolding q rne_of_int ..
  also have "\<dots> = x" by simp
  finally show ?thesis .
qed

lemma round_bin_unfold:
  "x \<noteq> 0 \<Longrightarrow> round_bin p emin x =
     of_int (rne (x / 2 powi (max (ilog2 \<bar>x\<bar>) emin - (int p - 1))))
       * 2 powi (max (ilog2 \<bar>x\<bar>) emin - (int p - 1))"
  by (simp add: round_bin_def Let_def)

lemma round_bin_nonneg:
  assumes "0 \<le> x"
  shows "0 \<le> round_bin p emin x"
proof (cases "x = 0")
  case True
  then show ?thesis by (simp add: round_bin_def)
next
  case False
  let ?u = "(2::rat) powi (max (ilog2 \<bar>x\<bar>) emin - (int p - 1))"
  have "of_int 0 \<le> x / ?u" using assms by simp
  then have "0 \<le> rne (x / ?u)" by (rule rne_ge)
  then show ?thesis unfolding round_bin_unfold[OF False] by simp
qed

lemma powi_split: "(2::rat) powi (e + 1) = 2 ^ p * 2 powi (e - (int p - 1))"
proof -
  have eq: "int p + (e - (int p - 1)) = e + 1" by simp
  have "(2::rat) ^ p * 2 powi (e - (int p - 1)) = 2 powi (int p) * 2 powi (e - (int p - 1))"
    by (simp add: power_int_of_nat)
  also have "\<dots> = 2 powi (int p + (e - (int p - 1)))" by (subst power_int_add) simp_all
  also have "\<dots> = 2 powi (e + 1)" by (simp only: eq)
  finally show ?thesis by (rule sym)
qed

lemma powi_split': 
  assumes "1 \<le> p"
  shows "(2::rat) powi e = 2 ^ (p - 1) * 2 powi (e - (int p - 1))"
proof -
  have eq: "int (p - 1) + (e - (int p - 1)) = e" using assms by simp
  have "(2::rat) ^ (p - 1) * 2 powi (e - (int p - 1)) = 2 powi (int (p - 1)) * 2 powi (e - (int p - 1))"
    by (simp add: power_int_of_nat)
  also have "\<dots> = 2 powi (int (p - 1) + (e - (int p - 1)))" by (subst power_int_add) simp_all
  also have "\<dots> = 2 powi e" by (simp only: eq)
  finally show ?thesis by (rule sym)
qed


lemma round_bin_lower:
  assumes "0 < x" "emin \<le> ilog2 x" "1 \<le> p"
  shows "2 powi (ilog2 x) \<le> round_bin p emin x"
proof -
  define e where "e = ilog2 x"
  have me: "max e emin = e" using assms(2) by (simp add: e_def)
  let ?u = "(2::rat) powi (e - (int p - 1))"
  have x0: "x \<noteq> 0" "\<bar>x\<bar> = x" using assms by auto
  have "2 ^ (p - 1) * ?u \<le> x"
    using ilog2_bounds[OF assms(1)] by (simp only: powi_split'[OF assms(3), symmetric] e_def)
  then have "2 ^ (p - 1) \<le> x / ?u" by (simp add: pos_le_divide_eq)
  then have "of_int (2 ^ (p - 1)) \<le> x / ?u" by simp
  then have "2 ^ (p - 1) \<le> rne (x / ?u)" by (rule rne_ge)
  then have "(of_int (2 ^ (p - 1)) :: rat) \<le> of_int (rne (x / ?u))" by (simp only: of_int_le_iff)
  then have "2 ^ (p - 1) * ?u \<le> of_int (rne (x / ?u)) * ?u" by simp
  then show ?thesis
    unfolding round_bin_unfold[OF x0(1)] x0(2) me e_def[symmetric]
      powi_split'[OF assms(3), of e] .
qed



section \<open>Doubles: when an operation is exact\<close>

lemma finite_floatI:
  assumes p: "1 \<le> p" and x: "x = of_int m * 2 powi k" and m: "\<bar>m\<bar> \<le> 2 ^ p"
    and k: "emin - (int p - 1) \<le> k"
  shows "finite_float p emin x"
proof (cases "\<bar>m\<bar> < 2 ^ p")
  case True
  then show ?thesis unfolding finite_float_def using x k by blast
next
  case False
  then have mm: "\<bar>m\<bar> = 2 ^ p" using m by linarith
  obtain n where pn: "p = Suc n" using p by (cases p) auto
  have "even m" using mm pn by (metis abs_zmult_eq_1 dvd_abs_iff dvd_triv_left power_Suc)
  then have m2: "m = 2 * (m div 2)" by simp
  then have "(of_int m :: rat) = 2 * of_int (m div 2)" by (metis of_int_mult of_int_numeral)
  moreover have "(2::rat) powi (k + 1) = 2 * 2 powi k" by (simp add: power_int_add)
  ultimately have "x = of_int (m div 2) * 2 powi (k + 1)" using x by simp
  moreover have "\<bar>m div 2\<bar> < 2 ^ p"
  proof -
    have "\<bar>m\<bar> = 2 * \<bar>m div 2\<bar>" using m2 by linarith
    moreover have "(0::int) < 2 ^ p" by simp
    ultimately show ?thesis using mm by linarith
  qed
  moreover have "emin - (int p - 1) \<le> k + 1" using k by simp
  ultimately show ?thesis unfolding finite_float_def by blast
qed

lemma round_bin_form:
  assumes "x \<noteq> 0"
  shows "\<exists>m. round_bin p emin x = of_int m * 2 powi (max (ilog2 \<bar>x\<bar>) emin - (int p - 1))
             \<and> \<bar>m\<bar> \<le> 2 ^ p"
proof -
  define e where "e = max (ilog2 \<bar>x\<bar>) emin"
  define j where "j = e - (int p - 1)"
  define r where "r = rne (x / 2 powi j)"
  have rb: "round_bin p emin x = of_int r * 2 powi j"
    using assms by (simp add: round_bin_def Let_def e_def j_def r_def)
  have xpos: "0 < \<bar>x\<bar>" using assms by simp
  have "\<bar>x\<bar> < 2 powi (ilog2 \<bar>x\<bar> + 1)" using ilog2_bounds[OF xpos] by simp
  also have "\<dots> \<le> 2 powi (e + 1)" by (simp add: e_def power_int_increasing)
  finally have xe: "\<bar>x\<bar> < 2 ^ p * 2 powi j" by (simp only: j_def powi_split[of e p])
  have q0: "\<bar>x / 2 powi j\<bar> < 2 ^ p"
    using xe by (simp add: abs_divide pos_divide_less_eq)
  have c: "(of_int (2 ^ p) :: rat) = 2 ^ p" "(of_int (- (2 ^ p)) :: rat) = - (2 ^ p)" by simp_all
  have q1: "x / 2 powi j \<le> of_int (2 ^ p)" unfolding c using q0 by linarith
  have q2: "of_int (- (2 ^ p)) \<le> x / 2 powi j" unfolding c using q0 by linarith
  have r1: "r \<le> 2 ^ p" unfolding r_def using rne_le[OF q1] .
  have r2: "- (2 ^ p) \<le> r" unfolding r_def using rne_ge[OF q2] .
  have "\<bar>r\<bar> \<le> 2 ^ p" using r1 r2 by linarith
  then show ?thesis using rb unfolding j_def e_def by blast
qed

lemma round_bin_finite:
  assumes "1 \<le> p"
  shows "finite_float p emin (round_bin p emin x)"
proof (cases "x = 0")
  case True
  have z: "(0::rat) = of_int 0 * 2 powi (emin - (int p - 1))" by simp
  have "finite_float p emin 0" by (rule finite_floatI[OF assms z]) simp_all
  then show ?thesis using True by (simp add: round_bin_def)
next
  case False
  obtain m where m: "round_bin p emin x = of_int m * 2 powi (max (ilog2 \<bar>x\<bar>) emin - (int p - 1))"
    "\<bar>m\<bar> \<le> 2 ^ p"
    using round_bin_form[OF False] by blast
  show ?thesis using assms m by (rule finite_floatI) simp
qed

lemma round_bin_abs_le:
  assumes "x \<noteq> 0"
  shows "\<bar>round_bin p emin x\<bar> \<le> 2 powi (max (ilog2 \<bar>x\<bar>) emin + 1)"
proof -
  define e where "e = max (ilog2 \<bar>x\<bar>) emin"
  obtain m where m: "round_bin p emin x = of_int m * 2 powi (e - (int p - 1))" "\<bar>m\<bar> \<le> 2 ^ p"
    using round_bin_form[OF assms] unfolding e_def by blast
  have "(of_int \<bar>m\<bar> :: rat) \<le> of_int (2 ^ p)" using m(2) by (simp only: of_int_le_iff)
  then have "\<bar>of_int m :: rat\<bar> \<le> 2 ^ p" by simp
  then have "\<bar>of_int m :: rat\<bar> * 2 powi (e - (int p - 1)) \<le> 2 ^ p * 2 powi (e - (int p - 1))"
    by (simp add: mult_right_mono)
  then show ?thesis unfolding m(1) e_def[symmetric] powi_split[of e p] by (simp add: abs_mult)
qed

lemma round_bin_abs_bound:
  assumes "\<bar>x\<bar> < 2 powi n" "emin < n"
  shows "\<bar>round_bin p emin x\<bar> \<le> 2 powi n"
proof (cases "x = 0")
  case True
  then show ?thesis by (simp add: round_bin_def)
next
  case False
  then have "ilog2 \<bar>x\<bar> < n" using assms(1) by (intro ilog2_less) auto
  then have "max (ilog2 \<bar>x\<bar>) emin + 1 \<le> n" using assms(2) by simp
  then have "(2::rat) powi (max (ilog2 \<bar>x\<bar>) emin + 1) \<le> 2 powi n"
    by (simp add: power_int_increasing)
  then show ?thesis using round_bin_abs_le[OF False, of p emin] by linarith
qed

lemma to_double_Num:
  assumes "\<bar>x\<bar> < 2 ^ 1023"
  shows "to_double x = Num (round_bin 53 (- 1022) x)"
proof -
  have "\<bar>x\<bar> < 2 powi 1023" using assms by simp
  then have "\<bar>round_bin 53 (- 1022) x\<bar> \<le> 2 powi 1023" by (rule round_bin_abs_bound) simp
  then have "\<bar>round_bin 53 (- 1022) x\<bar> < 2 ^ 1024" by simp
  then show ?thesis by (simp add: to_double_def Let_def abs_less_iff)
qed

lemma is_double_round:
  assumes "\<bar>x\<bar> < 2 ^ 1023"
  shows "is_double (round_bin 53 (- 1022) x)"
proof -
  have "\<bar>x\<bar> < 2 powi 1023" using assms by simp
  then have "\<bar>round_bin 53 (- 1022) x\<bar> \<le> 2 powi 1023" by (rule round_bin_abs_bound) simp
  then have "\<bar>round_bin 53 (- 1022) x\<bar> < 2 ^ 1024" by simp
  then show ?thesis unfolding is_double_def using round_bin_finite[of 53 "- 1022" x] by simp
qed

lemma to_double_exact:
  assumes "is_double x"
  shows "to_double x = Num x"
proof -
  obtain m k where mk: "x = of_int m * 2 powi k" "\<bar>m\<bar> < 2 ^ 53" "- 1022 - (int 53 - 1) \<le> k"
    using assms unfolding is_double_def finite_float_def by blast
  have "round_bin 53 (- 1022) x = x" using mk by (rule round_bin_exact)
  then show ?thesis using assms by (simp add: to_double_def is_double_def abs_less_iff)
qed

lemma is_double_of_int:
  assumes "\<bar>n\<bar> \<le> 2 ^ 53"
  shows "is_double (of_int n)"
proof -
  have eq: "(of_int n :: rat) = of_int n * 2 powi 0" by simp
  have "finite_float 53 (- 1022) (of_int n)"
    by (rule finite_floatI[OF _ eq assms]) simp_all
  moreover have "\<bar>of_int n :: rat\<bar> < 2 ^ 1024"
  proof -
    have "\<bar>n\<bar> < 2 ^ 1024" using assms by (rule le_less_trans) simp
    then have "(of_int \<bar>n\<bar> :: rat) < of_int (2 ^ 1024)" by (simp only: of_int_less_iff)
    then show ?thesis by simp
  qed
  ultimately show ?thesis by (simp add: is_double_def)
qed

lemma js_nat_exact: "n \<le> 2 ^ 53 \<Longrightarrow> js_nat n = Num (of_nat n)"
proof -
  assume "n \<le> 2 ^ 53"
  then have "\<bar>int n\<bar> \<le> 2 ^ 53" by (simp add: le_nat_iff flip: of_nat_le_iff)
  then have "is_double (of_int (int n))" by (rule is_double_of_int)
  then show ?thesis unfolding js_nat_def using to_double_exact by fastforce
qed

section \<open>Evaluating the constants of the page\<close>

lemma to_double_eval:
  "round_bin 53 (- 1022) x = y \<Longrightarrow> \<bar>y\<bar> < 2 ^ 1023 \<Longrightarrow> to_double x = Num y"
  by (auto simp: to_double_def Let_def abs_less_iff)

lemma js_nat_numeral: "numeral k \<le> (2::nat) ^ 53 \<Longrightarrow> js_nat (numeral k) = Num (numeral k)"
  using js_nat_exact[of "numeral k"] by simp

lemma js_nat_0: "js_nat 0 = Num 0"
  using js_nat_exact[of 0] by simp

lemma to_double_0: "to_double 0 = Num 0"
  by (simp add: to_double_def round_bin_def)

lemma ratio_1024_585:
  "jsdiv (Num 1024) (Num 585) = Num (1970805990780935 / 1125899906842624)"
proof -
  have "to_double (1024 / 585) = Num (1970805990780935 / 1125899906842624)"
  proof (rule to_double_eval)
    show "round_bin 53 (- 1022) (1024 / 585) = 1970805990780935 / 1125899906842624"
      by code_simp
    show "\<bar>1970805990780935 / 1125899906842624 :: rat\<bar> < 2 ^ 1023" by simp
  qed
  then show ?thesis by simp
qed

lemma width_over_ratio_1024:
  "jsdiv (Num 1024) (Num (1970805990780935 / 1125899906842624)) = Num 585"
proof -
  have "to_double (1024 / (1970805990780935 / 1125899906842624)) = Num 585"
  proof (rule to_double_eval)
    show "round_bin 53 (- 1022) (1024 / (1970805990780935 / 1125899906842624)) = 585"
      by code_simp
    show "\<bar>585 :: rat\<bar> < 2 ^ 1023" by simp
  qed
  then show ?thesis by (simp only: jsdiv.simps) simp
qed

lemma centerCrop_1024_585:
  "centerCrop \<lparr>width = 1024, height = 585, scaled = f\<rparr> = (Num 0, Num 0, Num 1024, Num 585)"
proof -
  have "jssub (Num 585) (Num 585) = Num 0" by (simp add: to_double_0)
  moreover have "jsdiv (Num 0) (Num 2) = Num 0" by (simp add: to_double_0)
  ultimately show ?thesis
    by (simp add: centerCrop_def Let_def ratio_1024_585 width_over_ratio_1024 jsgt_def
        OUTPUT_W_def OUTPUT_H_def js_nat_numeral del: jsdiv.simps jssub.simps)
qed

lemma jsmul_eval:
  "round_bin 53 (- 1022) (a * b) = y \<Longrightarrow> \<bar>y\<bar> < 2 ^ 1023 \<Longrightarrow> jsmul (Num a) (Num b) = Num y"
  by (simp add: to_double_eval)

lemma jsadd_eval:
  "round_bin 53 (- 1022) (a + b) = y \<Longrightarrow> \<bar>y\<bar> < 2 ^ 1023 \<Longrightarrow> jsadd (Num a) (Num b) = Num y"
  by (simp add: to_double_eval)

lemma jsdiv_eval:
  "b \<noteq> 0 \<Longrightarrow> round_bin 53 (- 1022) (a / b) = y \<Longrightarrow> \<bar>y\<bar> < 2 ^ 1023
   \<Longrightarrow> jsdiv (Num a) (Num b) = Num y"
  by (simp add: to_double_eval)

lemma c299: "to_double (299 / 1000) = Num (5386305154335113 / 18014398509481984)"
proof (rule to_double_eval)
  show "round_bin 53 (- 1022) (299 / 1000) = 5386305154335113 / 18014398509481984"
    by code_simp
qed simp

lemma c587: "to_double (587 / 1000) = Num (2643612981266481 / 4503599627370496)"
proof (rule to_double_eval)
  show "round_bin 53 (- 1022) (587 / 1000) = 2643612981266481 / 4503599627370496"
    by code_simp
qed simp

lemma c114: "to_double (114 / 1000) = Num (8214565720323785 / 72057594037927936)"
proof (rule to_double_eval)
  show "round_bin 53 (- 1022) (114 / 1000) = 8214565720323785 / 72057594037927936"
    by code_simp
qed simp

lemma luminance_white: "luminance 255 255 255 = Num 255"
proof -
  have r: "jsmul (Num (5386305154335113 / 18014398509481984)) (Num 255)
            = Num (5365264899825991 / 70368744177664)"
  proof (rule jsmul_eval)
    show "round_bin 53 (- 1022) (5386305154335113 / 18014398509481984 * 255)
            = 5365264899825991 / 70368744177664"
      by code_simp
  qed simp
  have g: "jsmul (Num (2643612981266481 / 4503599627370496)) (Num 255)
            = Num (2633286368058409 / 17592186044416)"
  proof (rule jsmul_eval)
    show "round_bin 53 (- 1022) (2643612981266481 / 4503599627370496 * 255)
            = 2633286368058409 / 17592186044416"
      by code_simp
  qed simp
  have b: "jsmul (Num (8214565720323785 / 72057594037927936)) (Num 255)
            = Num (4091238786489385 / 140737488355328)"
  proof (rule jsmul_eval)
    show "round_bin 53 (- 1022) (8214565720323785 / 72057594037927936 * 255)
            = 4091238786489385 / 140737488355328"
      by code_simp
  qed simp
  have rg: "jsadd (Num (5365264899825991 / 70368744177664)) (Num (2633286368058409 / 17592186044416))
            = Num (3974602593014907 / 17592186044416)"
  proof (rule jsadd_eval)
    show "round_bin 53 (- 1022) (5365264899825991 / 70368744177664 + 2633286368058409 / 17592186044416)
            = 3974602593014907 / 17592186044416"
      by code_simp
  qed simp
  have rgb: "jsadd (Num (3974602593014907 / 17592186044416)) (Num (4091238786489385 / 140737488355328))
            = Num 255"
  proof (rule jsadd_eval)
    show "round_bin 53 (- 1022) (3974602593014907 / 17592186044416 + 4091238786489385 / 140737488355328)
            = 255"
      by code_simp
  qed simp
  have byte: "js_byte 255 = Num 255" by (simp add: js_byte_def)
  show ?thesis
    unfolding luminance_def c299 c587 c114 byte r g b rg rgb ..
qed

lemma luminance_black: "luminance 0 0 0 = Num 0"
proof -
  have byte: "js_byte 0 = Num 0" by (simp add: js_byte_def)
  have z: "\<And>a. jsmul (Num a) (Num 0) = Num 0" by (simp add: to_double_0)
  have zz: "jsadd (Num 0) (Num 0) = Num 0" by (simp add: to_double_0)
  show ?thesis
    unfolding luminance_def c299 c587 c114 byte z zz ..
qed

section \<open>Brightness sampler: a frame of one colour\<close>

lemma jsadd_nat:
  assumes "a + b \<le> 2 ^ 53"
  shows "jsadd (Num (of_nat a)) (Num (of_nat b)) = Num (of_nat (a + b))"
proof -
  have "to_double (of_nat (a + b)) = Num (of_nat (a + b))"
    using js_nat_exact[OF assms] by (simp add: js_nat_def)
  then show ?thesis by simp
qed

lemma brightness_loop_uniform:
  assumes len: "length data = 4 * n"
    and uni: "\<forall>j<length data. j mod 4 \<noteq> 3 \<longrightarrow> data ! j = v"
    and lum: "luminance v v v = Num (of_nat c)"
    and bound: "c * n \<le> 2 ^ 53"
  shows "k \<le> n \<Longrightarrow>
         brightness_loop data (4 * k) (Num (of_nat (c * k))) = Num (of_nat (c * n))"
proof (induction "n - k" arbitrary: k)
  case 0
  then have "k = n" by simp
  then show ?case using len by (subst brightness_loop.simps) simp
next
  case (Suc d)
  then have kn: "k < n" by simp
  have i0: "4 * k < length data" "4 * k + 1 < length data" "4 * k + 2 < length data"
    using kn len by simp_all
  have m: "(4 * k) mod 4 \<noteq> 3" "(4 * k + 1) mod 4 \<noteq> 3" "(4 * k + 2) mod 4 \<noteq> 3"
    by presburger+
  have px: "data ! (4 * k) = v" "data ! (4 * k + 1) = v" "data ! (4 * k + 2) = v"
    using uni i0 m by blast+
  have "c * Suc k \<le> c * n" using kn by (intro mult_le_mono2) simp
  then have "c * k + c \<le> c * n" by simp
  then have "c * k + c \<le> 2 ^ 53" using bound by simp
  then have add: "jsadd (Num (of_nat (c * k))) (Num (of_nat c)) = Num (of_nat (c * Suc k))"
    using jsadd_nat[of "c * k" c] by simp
  have e: "4 * k + 4 = 4 * Suc k" by simp
  have "brightness_loop data (4 * k) (Num (of_nat (c * k)))
          = brightness_loop data (4 * k + 4)
              (jsadd (Num (of_nat (c * k))) (luminance_at data (4 * k)))"
    using i0(1) by (subst brightness_loop.simps) (simp only: if_True)
  also have "luminance_at data (4 * k) = Num (of_nat c)"
    using i0(3) by (simp only: luminance_at_def if_True px lum)
  also have "brightness_loop data (4 * k + 4) (jsadd (Num (of_nat (c * k))) (Num (of_nat c)))
               = brightness_loop data (4 * Suc k) (Num (of_nat (c * Suc k)))"
    by (simp only: add e)
  also have "\<dots> = Num (of_nat (c * n))"
    using Suc.hyps(1)[of "Suc k"] Suc.hyps(2) kn by simp
  finally show ?case .
qed

lemma getAverageBrightness_uniform_value:
  assumes len: "length (scaled video 64 48) = 4 * 64 * 48"
    and uni: "\<forall>j<4 * 64 * 48. j mod 4 \<noteq> 3 \<longrightarrow> scaled video 64 48 ! j = v"
    and lum: "luminance v v v = Num (of_nat c)"
    and c: "c \<le> 255"
  shows "getAverageBrightness True video = Num (of_nat c)"
proof -
  let ?d = "scaled video 64 48"
  have l: "length ?d = 4 * 3072" using len by simp
  have u: "\<forall>j<length ?d. j mod 4 \<noteq> 3 \<longrightarrow> ?d ! j = v" using uni len by simp
  have b: "c * 3072 \<le> 2 ^ 53" using c by simp
  have "brightness_loop ?d (4 * 0) (Num (of_nat (c * 0))) = Num (of_nat (c * 3072))"
    by (rule brightness_loop_uniform[OF l u lum b]) simp
  then have loop: "brightness_loop ?d 0 (Num 0) = Num (of_nat (c * 3072))" by simp
  have n: "js_nat 3072 = Num 3072" using js_nat_exact[of 3072] by simp
  have "is_double (of_int (int c))" by (rule is_double_of_int) (use c in simp)
  then have "to_double (of_nat c) = Num (of_nat c)" using to_double_exact by fastforce
  then have "jsdiv (Num (of_nat (c * 3072))) (Num 3072) = Num (of_nat c)" by simp
  then show ?thesis
    by (simp add: getAverageBrightness_def Let_def loop n del: jsdiv.simps)
qed



section \<open>Sharpness estimator: the loops as sums over the interior\<close>

lemma inner_loop_fold:
  "inner_loop w gray y x (s, sq, c) =
     (foldl jsadd s (map (\<lambda>x. lap_at w gray x y) [x..<w - 1]),
      foldl jsadd sq (map (\<lambda>r. jsmul r r) (map (\<lambda>x. lap_at w gray x y) [x..<w - 1])),
      c + length [x..<w - 1])"
proof (induction "w - 1 - x" arbitrary: x s sq c)
  case 0
  then have "\<not> x < w - 1" by simp
  then show ?case by (subst inner_loop.simps) simp
next
  case (Suc d)
  then have lt: "x < w - 1" by simp
  have d: "d = w - 1 - (x + 1)" using Suc.hyps(2) by simp
  have "inner_loop w gray y x (s, sq, c) =
        inner_loop w gray y (x + 1)
          (jsadd s (lap_at w gray x y),
           jsadd sq (jsmul (lap_at w gray x y) (lap_at w gray x y)), c + 1)"
    using lt by (subst inner_loop.simps) (simp only: if_True Let_def)
  also note Suc.hyps(1)[OF d]
  finally show ?case using lt by (simp add: upt_conv_Cons)
qed

lemma outer_loop_fold:
  "outer_loop w h gray y (s, sq, c) =
     (foldl jsadd s (concat (map (row_responses w gray) [y..<h - 1])),
      foldl jsadd sq (map (\<lambda>r. jsmul r r) (concat (map (row_responses w gray) [y..<h - 1]))),
      c + length (concat (map (row_responses w gray) [y..<h - 1])))"
proof (induction "h - 1 - y" arbitrary: y s sq c)
  case 0
  then have "\<not> y < h - 1" by simp
  then show ?case by (subst outer_loop.simps) simp
next
  case (Suc d)
  then have lt: "y < h - 1" by simp
  have d: "d = h - 1 - (y + 1)" using Suc.hyps(2) by simp
  have "outer_loop w h gray y (s, sq, c) =
        outer_loop w h gray (y + 1) (inner_loop w gray y 1 (s, sq, c))"
    using lt by (subst outer_loop.simps) (simp only: if_True)
  also have "inner_loop w gray y 1 (s, sq, c) =
      (foldl jsadd s (row_responses w gray y),
       foldl jsadd sq (map (\<lambda>r. jsmul r r) (row_responses w gray y)),
       c + length (row_responses w gray y))"
    by (simp add: inner_loop_fold row_responses_def)
  also note Suc.hyps(1)[OF d]
  finally show ?case using lt by (simp add: upt_conv_Cons)
qed

lemma responses_rows:
  "responses w h gray = concat (map (row_responses w gray) [1..<h - 1])"
  by (simp add: responses_def interior_def row_responses_def[abs_def] map_concat comp_def)

lemma length_responses: "length (responses w h gray) = (w - 2) * (h - 2)"
proof -
  have "length (concat (map (row_responses w gray) ys)) = (w - 2) * length ys" for ys
    by (induction ys) (simp_all add: row_responses_def)
  moreover have "length [1..<h - 1] = h - 2" by simp
  ultimately show ?thesis by (simp only: responses_rows)
qed

lemma set_interior:
  "set (interior w h) = {(x, y). 1 \<le> x \<and> x \<le> w - 2 \<and> 1 \<le> y \<and> y \<le> h - 2}"
proof -
  have "(x, y) \<in> set (interior w h) \<longleftrightarrow> 1 \<le> x \<and> x \<le> w - 2 \<and> 1 \<le> y \<and> y \<le> h - 2"
    for x y
  proof -
    have "(x, y) \<in> set (interior w h)
            \<longleftrightarrow> (\<exists>y'\<in>{1..<h - 1}. (x, y) \<in> (\<lambda>x. (x, y')) ` {1..<w - 1})"
      by (simp add: interior_def)
    also have "\<dots> \<longleftrightarrow> x \<in> {1..<w - 1} \<and> y \<in> {1..<h - 1}" by blast
    also have "\<dots> \<longleftrightarrow> 1 \<le> x \<and> x \<le> w - 2 \<and> 1 \<le> y \<and> y \<le> h - 2" by auto
    finally show ?thesis .
  qed
  then show ?thesis by auto
qed

lemma distinct_grid:
  "distinct xs \<Longrightarrow> distinct ys \<Longrightarrow> distinct (concat (map (\<lambda>y. map (\<lambda>x. (x, y)) xs) ys))"
  by (induction ys) (auto simp: distinct_map inj_on_def)

lemma distinct_interior: "distinct (interior w h)"
  unfolding interior_def by (rule distinct_grid) simp_all

lemma laplacianVariance_responses:
  "laplacianVariance w h gray = spec_variance (responses w h gray)"
  by (simp add: laplacianVariance_def outer_loop_fold variance_of_def spec_variance_def
      mean_of_def responses_rows Let_def)

section \<open>Sharpness estimator: a buffer of one value\<close>

lemma finite_float_double:
  assumes "finite_float 24 (- 126) x"
  shows "finite_float 53 (- 1022) x"
proof -
  obtain m k where mk: "x = of_int m * 2 powi k" "\<bar>m\<bar> < 2 ^ 24" "- 126 - (int 24 - 1) \<le> k"
    using assms unfolding finite_float_def by blast
  have "\<bar>m\<bar> < 2 ^ 53" using mk(2) by simp
  moreover have "- 1022 - (int 53 - 1) \<le> k" using mk(3) by simp
  ultimately show ?thesis unfolding finite_float_def using mk(1) by blast
qed

lemma finite_float_twice:
  assumes "finite_float p emin x"
  shows "finite_float p emin (2 * x)"
proof -
  obtain m k where mk: "x = of_int m * 2 powi k" "\<bar>m\<bar> < 2 ^ p" "emin - (int p - 1) \<le> k"
    using assms unfolding finite_float_def by blast
  have "(2::rat) powi (k + 1) = 2 * 2 powi k" by (simp add: power_int_add)
  then have "2 * x = of_int m * 2 powi (k + 1)" using mk(1) by simp
  moreover have "emin - (int p - 1) \<le> k + 1" using mk(3) by simp
  ultimately show ?thesis unfolding finite_float_def using mk(2) by blast
qed

lemma finite_float_minus:
  assumes "finite_float p emin x"
  shows "finite_float p emin (- x)"
proof -
  obtain m k where mk: "x = of_int m * 2 powi k" "\<bar>m\<bar> < 2 ^ p" "emin - (int p - 1) \<le> k"
    using assms unfolding finite_float_def by blast
  have "- x = of_int (- m) * 2 powi k" using mk(1) by simp
  moreover have "\<bar>- m\<bar> < 2 ^ p" using mk(2) by simp
  ultimately show ?thesis unfolding finite_float_def using mk(3) by blast
qed


lemma small_double_exact:
  assumes "finite_float 53 (- 1022) x" "\<bar>x\<bar> \<le> 2 ^ 30"
  shows "to_double x = Num x"
proof -
  have "\<bar>x\<bar> < 2 ^ 1024" using assms(2) by (rule le_less_trans) simp
  then show ?thesis using assms(1) by (intro to_double_exact) (simp add: is_double_def)
qed

lemma laplacian_of_flat:
  assumes "small_double g"
  shows "jsadd (jsadd (jsadd (jsadd (Num g) (Num g)) (jsmul (Num (- 4)) (Num g))) (Num g)) (Num g)
           = Num 0"
proof -
  have f: "finite_float 53 (- 1022) g" and b: "\<bar>g\<bar> \<le> 2 ^ 20"
    using assms by (simp_all add: small_double_def)
  have f2: "finite_float 53 (- 1022) (2 * g)" using f by (rule finite_float_twice)
  have f4: "finite_float 53 (- 1022) (2 * (2 * g))" using f2 by (rule finite_float_twice)
  have m4: "finite_float 53 (- 1022) (- (2 * (2 * g)))" using f4 by (rule finite_float_minus)
  have m2: "finite_float 53 (- 1022) (- (2 * g))" using f2 by (rule finite_float_minus)
  have m1: "finite_float 53 (- 1022) (- g)" using f by (rule finite_float_minus)
  have s1: "jsadd (Num g) (Num g) = Num (2 * g)"
    using small_double_exact[OF f2] b by simp
  have s2: "jsmul (Num (- 4)) (Num g) = Num (- (2 * (2 * g)))"
    using small_double_exact[OF m4] b by simp
  have s3: "jsadd (Num (2 * g)) (Num (- (2 * (2 * g)))) = Num (- (2 * g))"
    using small_double_exact[OF m2] b by simp
  have s4: "jsadd (Num (- (2 * g))) (Num g) = Num (- g)"
    using small_double_exact[OF m1] b by simp
  have s5: "jsadd (Num (- g)) (Num g) = Num 0"
    by (simp add: to_double_0)
  show ?thesis by (simp only: s1 s2 s3 s4 s5)
qed

lemma to_double_range:
  assumes "0 \<le> x" "x < 2 ^ n" "n \<le> 30"
  shows "\<exists>y. to_double x = Num y \<and> 0 \<le> y \<and> y \<le> 2 ^ n"
proof -
  let ?y = "round_bin 53 (- 1022) x"
  have "\<bar>x\<bar> < 2 powi (int n)" using assms by (simp add: power_int_of_nat)
  then have "\<bar>?y\<bar> \<le> 2 powi (int n)" by (rule round_bin_abs_bound) simp
  then have yb: "?y \<le> 2 ^ n" by (simp add: power_int_of_nat)
  have "(2::rat) ^ n \<le> 2 ^ 30" using assms(3) by (intro power_increasing) simp_all
  then have "\<bar>x\<bar> < 2 ^ 1023" using assms(1,2) by simp
  then have "to_double x = Num ?y" by (rule to_double_Num)
  then show ?thesis using yb round_bin_nonneg[OF assms(1)] by blast
qed

lemma js_byte_range: "\<exists>v. js_byte b = Num v \<and> 0 \<le> v \<and> v \<le> 255"
proof -
  have "unat b < 2 ^ 8" using unsigned_less[of b, where ?'a = nat] by simp
  then have "unat b \<le> 255" by simp
  then have "(of_nat (unat b) :: rat) \<le> of_nat 255" by (simp only: of_nat_le_iff)
  then have "(of_nat (unat b) :: rat) \<le> 255" by (simp only: of_nat_numeral)
  moreover have "0 \<le> (of_nat (unat b) :: rat)" by (rule of_nat_0_le_iff)
  ultimately show ?thesis unfolding js_byte_def by blast
qed

lemma weighted_byte_range:
  assumes "0 \<le> c" "c \<le> 1"
  shows "\<exists>y. jsmul (Num c) (js_byte b) = Num y \<and> 0 \<le> y \<and> y \<le> 2 ^ 8"
proof -
  obtain v where v: "js_byte b = Num v" "0 \<le> v" "v \<le> 255" using js_byte_range by blast
  have "c * v \<le> 1 * 255" using assms v by (intro mult_mono) simp_all
  then have "c * v < 2 ^ 8" by simp
  moreover have "0 \<le> c * v" using assms v by simp
  ultimately show ?thesis using to_double_range[of "c * v" 8] by (simp add: v(1))
qed

lemma luminance_range: "\<exists>l. luminance r g b = Num l \<and> 0 \<le> l \<and> l \<le> 2 ^ 11"
proof -
  obtain y1 where y1: "jsmul (to_double (299 / 1000)) (js_byte r) = Num y1" "0 \<le> y1" "y1 \<le> 2 ^ 8"
    unfolding c299 using weighted_byte_range[of "5386305154335113 / 18014398509481984" r] by auto
  obtain y2 where y2: "jsmul (to_double (587 / 1000)) (js_byte g) = Num y2" "0 \<le> y2" "y2 \<le> 2 ^ 8"
    unfolding c587 using weighted_byte_range[of "2643612981266481 / 4503599627370496" g] by auto
  obtain y3 where y3: "jsmul (to_double (114 / 1000)) (js_byte b) = Num y3" "0 \<le> y3" "y3 \<le> 2 ^ 8"
    unfolding c114 using weighted_byte_range[of "8214565720323785 / 72057594037927936" b] by auto
  have "0 \<le> y1 + y2" "y1 + y2 < 2 ^ 10" using y1 y2 by simp_all
  then obtain z where z: "jsadd (Num y1) (Num y2) = Num z" "0 \<le> z" "z \<le> 2 ^ 10"
    using to_double_range[of "y1 + y2" 10] by auto
  have "0 \<le> z + y3" "z + y3 < 2 ^ 11" using z y3 by simp_all
  then obtain l where l: "jsadd (Num z) (Num y3) = Num l" "0 \<le> l" "l \<le> 2 ^ 11"
    using to_double_range[of "z + y3" 11] by auto
  have "luminance r g b = Num l"
    unfolding luminance_def y1(1) y2(1) y3(1) z(1) l(1) ..
  then show ?thesis using l by blast
qed

lemma gray_sample_small:
  "\<exists>v. to_float32 (luminance r g b) = Num v \<and> small_double v"
proof -
  obtain l where l: "luminance r g b = Num l" "0 \<le> l" "l \<le> 2 ^ 11"
    using luminance_range by blast
  let ?v = "round_bin 24 (- 126) l"
  have "\<bar>l\<bar> < 2 powi 12" using l by simp
  then have "\<bar>?v\<bar> \<le> 2 powi 12" by (rule round_bin_abs_bound) simp
  then have b: "\<bar>?v\<bar> \<le> 2 ^ 12" by simp
  then have "to_float32 (Num l) = Num ?v" by (simp add: Let_def abs_le_iff)
  moreover have "finite_float 53 (- 1022) ?v"
    by (rule finite_float_double) (rule round_bin_finite, simp)
  moreover have "\<bar>?v\<bar> \<le> 2 ^ 20" using b by simp
  ultimately show ?thesis unfolding small_double_def l(1) by blast
qed

lemma gray_loop_fill:
  "i \<le> length gray \<Longrightarrow>
   gray_loop data i gray = take i gray @ map (gray_sample data) [i..<length gray]"
proof (induction "length gray - i" arbitrary: i gray)
  case 0
  then show ?case by (subst gray_loop.simps) simp
next
  case (Suc d)
  then have lt: "i < length gray" by simp
  let ?g = "gray[i := gray_sample data i]"
  have d: "d = length ?g - (i + 1)" using Suc.hyps(2) by simp
  have le: "i + 1 \<le> length ?g" using lt by simp
  have "gray_loop data i gray = gray_loop data (i + 1) ?g"
    using lt by (subst gray_loop.simps) (simp only: if_True Let_def gray_sample_def)
  also have "\<dots> = take (i + 1) ?g @ map (gray_sample data) [i + 1..<length ?g]"
    by (rule Suc.hyps(1)[OF d le])
  also have "take (i + 1) ?g = take i gray @ [gray_sample data i]"
    using lt by (simp add: take_Suc_conv_app_nth)
  finally show ?case using lt by (simp add: upt_conv_Cons)
qed

lemma gray_loop_flat:
  assumes "\<forall>i<n. gray_sample data i = v"
  shows "gray_loop data 0 (replicate n (Num 0)) = replicate n v"
proof -
  have "gray_loop data 0 (replicate n (Num 0)) = map (gray_sample data) [0..<n]"
    using gray_loop_fill[of 0 "replicate n (Num 0)" data] by simp
  also have "\<dots> = replicate n v"
    using assms by (simp add: list_eq_iff_nth_eq)
  finally show ?thesis .
qed

lemma lap_at_flat:
  assumes g: "small_double g" and x: "1 \<le> x" "x + 1 < w" and y: "1 \<le> y" "y + 1 < h"
  shows "lap_at w (replicate (w * h) (Num g)) x y = Num 0"
proof -
  have rows: "(y + 2) * w \<le> h * w" using y by (intro mult_le_mono1) simp
  have e: "(y + 2) * w = (y + 1) * w + w" "(y + 1) * w = y * w + w" "y * w = (y - 1) * w + w"
    using y by (simp_all add: algebra_simps flip: mult_Suc)
  have i5: "(y + 1) * w + x < w * h" using rows e x by (simp add: mult.commute)
  have i4: "y * w + (x + 1) < w * h" using rows e x by (simp add: mult.commute)
  have i3: "y * w + x < w * h" using i4 by simp
  have i2: "y * w + (x - 1) < w * h" using i4 by simp
  have i1: "(y - 1) * w + x < w * h" using i3 e by simp
  show ?thesis
    unfolding lap_at_def gray_at_def
    by (simp only: length_replicate if_True nth_replicate i1 i2 i3 i4 i5 laplacian_of_flat[OF g])
qed

lemma responses_flat:
  assumes "small_double g"
  shows "responses w h (replicate (w * h) (Num g)) = replicate ((w - 2) * (h - 2)) (Num 0)"
proof -
  let ?gray = "replicate (w * h) (Num g)"
  have "lap_at w ?gray x y = Num 0" if "(x, y) \<in> set (interior w h)" for x y
  proof -
    have "1 \<le> x \<and> x \<le> w - 2 \<and> 1 \<le> y \<and> y \<le> h - 2"
      using that unfolding set_interior by simp
    then have "1 \<le> x" "x + 1 < w" "1 \<le> y" "y + 1 < h" by linarith+
    then show ?thesis by (rule lap_at_flat[OF assms])
  qed
  then have "\<forall>p\<in>set (interior w h). (case p of (x, y) \<Rightarrow> lap_at w ?gray x y) = Num 0"
    by auto
  then have "responses w h ?gray = replicate (length (interior w h)) (Num 0)"
    unfolding responses_def by (simp add: list_eq_iff_nth_eq)
  moreover have "length (interior w h) = (w - 2) * (h - 2)"
    using length_responses[of w h ?gray] by (simp add: responses_def)
  ultimately show ?thesis by simp
qed

lemma foldl_jsadd_zeros: "foldl jsadd (Num 0) (replicate n (Num 0)) = Num 0"
  by (induction n) (simp_all add: to_double_0)

lemma js_nat_positive:
  assumes "0 < n"
  shows "js_nat n = PInf \<or> (\<exists>c. js_nat n = Num c \<and> 0 < c)"
proof -
  let ?x = "of_nat n :: rat"
  let ?y = "round_bin 53 (- 1022) ?x"
  have x1: "2 powi 0 \<le> ?x" using assms by simp
  have xpos: "0 < ?x" using assms by simp
  have il: "0 \<le> ilog2 ?x" by (rule ilog2_ge[OF xpos x1])
  have "2 powi (ilog2 ?x) \<le> ?y" by (rule round_bin_lower[OF xpos]) (use il in simp_all)
  moreover have "(0::rat) < 2 powi (ilog2 ?x)" by simp
  ultimately have "0 < ?y" by linarith
  then show ?thesis by (auto simp: js_nat_def to_double_def Let_def)
qed

lemma zero_over_count:
  assumes "0 < n"
  shows "jsdiv (Num 0) (js_nat n) = Num 0"
  using js_nat_positive[OF assms] by (auto simp: to_double_0)

lemma spec_variance_zeros:
  assumes "0 < n"
  shows "spec_variance (replicate n (Num 0)) = Num 0"
proof -
  have sq: "map (\<lambda>r. jsmul r r) (replicate n (Num 0)) = replicate n (Num 0)"
    by (simp add: to_double_0)
  have m: "mean_of (replicate n (Num 0)) = Num 0"
    by (simp add: mean_of_def foldl_jsadd_zeros zero_over_count[OF assms])
  show ?thesis
    by (simp add: spec_variance_def sq m to_double_0)
qed

lemma laplacianVariance_flat:
  assumes "small_double g" "3 \<le> w" "3 \<le> h"
  shows "laplacianVariance w h (replicate (w * h) (Num g)) = Num 0"
proof -
  have "0 < (w - 2) * (h - 2)" using assms by simp
  then show ?thesis
    by (simp only: laplacianVariance_responses responses_flat[OF assms(1)] spec_variance_zeros)
qed

lemma getLaplacianVariance_flat:
  assumes dec: "decode imageSrc = Some img"
    and h: "scaledHeight img 160 = Num (of_nat h)" "3 \<le> h"
    and len: "length (scaled img 160 h) = 4 * (160 * h)"
    and flat: "\<forall>i<160 * h. scaled img 160 h ! (i * 4) = r
                 \<and> scaled img 160 h ! (i * 4 + 1) = g
                 \<and> scaled img 160 h ! (i * 4 + 2) = b"
  shows "getLaplacianVariance True imageSrc = Resolved (Num 0)"
proof -
  obtain v where v: "to_float32 (luminance r g b) = Num v" "small_double v"
    using gray_sample_small by blast
  have "\<forall>i<160 * h. gray_sample (scaled img 160 h) i = Num v"
    using flat v(1) len by (simp add: gray_sample_def luminance_at_def)
  then have gray: "gray_loop (scaled img 160 h) 0 (replicate (160 * h) (Num 0))
                     = replicate (160 * h) (Num v)"
    by (rule gray_loop_flat)
  have var: "laplacianVariance 160 h (replicate (160 * h) (Num v)) = Num 0"
    by (rule laplacianVariance_flat[OF v(2) _ h(2)]) simp
  have "laplacian_onload True img = Resolved (Num 0)"
    using h(2) by (simp add: laplacian_onload_def Let_def h(1) gray var)
  then show ?thesis by (simp add: getLaplacianVariance_def dec)
qed

lemma scaledHeight_160_120:
  "scaledHeight \<lparr>width = 160, height = 120, scaled = f\<rparr> 160 = Num (of_nat 120)"
proof -
  have q: "jsdiv (Num 120) (Num 160) = Num (3 / 4)"
  proof (rule jsdiv_eval)
    show "round_bin 53 (- 1022) (120 / 160) = 3 / 4" by code_simp
  qed simp_all
  have p: "jsmul (Num (3 / 4)) (Num 160) = Num 120"
  proof (rule jsmul_eval)
    show "round_bin 53 (- 1022) (3 / 4 * 160) = 120" by code_simp
  qed simp
  have "\<lfloor>(120 :: rat) + 1 / 2\<rfloor> = 120" by (rule floor_unique) simp_all
  then have "mathRound (Num 120) = Num 120" by simp
  then show ?thesis
    by (simp add: scaledHeight_def js_nat_numeral q p del: jsdiv.simps jsmul.simps mathRound.simps)
qed


section \<open>Sharpness estimator: the loops as a convolution with the Laplacian kernel\<close>


lemma js_value_to_double: "js_value (to_double x)"
proof -
  let ?y = "round_bin 53 (- 1022) x"
  have "finite_float 53 (- 1022) ?y" by (rule round_bin_finite) simp
  then show ?thesis by (auto simp: to_double_def Let_def is_double_def abs_less_iff)
qed

lemma js_value_jsadd: "js_value (jsadd a b)"
  by (cases a; cases b) (simp_all add: js_value_to_double)

lemma js_value_jsmul_Num: "js_value (jsmul (Num a) (Num b))"
  by (simp add: js_value_to_double)

lemma jsadd_zero_right: "js_value v \<Longrightarrow> jsadd v (Num 0) = v"
  by (cases v) (simp_all add: to_double_exact)

lemma jsadd_zero_left: "is_double x \<Longrightarrow> jsadd (Num 0) (Num x) = Num x"
  by (simp add: to_double_exact)

lemma jsmul_one: "is_double x \<Longrightarrow> jsmul (Num 1) (Num x) = Num x"
  by (simp add: to_double_exact)

lemma jsmul_zero: "jsmul (Num 0) (Num x) = Num 0"
  by (simp add: to_double_0)

lemma upt_3: "[0..<3] = [0, Suc 0, Suc (Suc 0)]"
  by (simp add: numeral_3_eq_3)

lemma convolve3_LAPLACIAN:
  "convolve3 LAPLACIAN w gray x y =
     foldl jsadd (Num 0)
       [jsmul (Num 0) (gray_at gray ((y - 1) * w + (x - 1))),
        jsmul (Num 1) (gray_at gray ((y - 1) * w + x)),
        jsmul (Num 0) (gray_at gray ((y - 1) * w + (x + 1))),
        jsmul (Num 1) (gray_at gray (y * w + (x - 1))),
        jsmul (Num (- 4)) (gray_at gray (y * w + x)),
        jsmul (Num 1) (gray_at gray (y * w + (x + 1))),
        jsmul (Num 0) (gray_at gray ((y + 1) * w + (x - 1))),
        jsmul (Num 1) (gray_at gray ((y + 1) * w + x)),
        jsmul (Num 0) (gray_at gray ((y + 1) * w + (x + 1)))]"
  by (simp add: convolve3_def LAPLACIAN_def upt_3 del: foldl_Cons)



lemma interior_index:
  fixes x y w h i j :: nat
  assumes "x + 1 < w" "y + 1 < h" "j \<le> 2" "i \<le> 2"
  shows "(y + j - 1) * w + (x + i - 1) < w * h"
proof -
  have "y + j - 1 + 1 \<le> h" using assms by simp
  then have "(y + j - 1 + 1) * w \<le> h * w" by (rule mult_le_mono1)
  moreover have "(y + j - 1 + 1) * w = (y + j - 1) * w + w" by (simp add: algebra_simps)
  moreover have "x + i - 1 < w" using assms by simp
  ultimately show ?thesis by (simp add: mult.commute)
qed

lemma lap_at_is_convolution:
  assumes len: "length gray = w * h"
    and dbl: "\<forall>i<length gray. \<exists>v. gray ! i = Num v \<and> is_double v"
    and x: "1 \<le> x" "x + 1 < w" and y: "1 \<le> y" "y + 1 < h"
  shows "lap_at w gray x y = convolve3 LAPLACIAN w gray x y"
proof -
  have rd: "i < w * h \<Longrightarrow> \<exists>v. gray_at gray i = Num v \<and> is_double v" for i
    using dbl len by (simp add: gray_at_def)
  have "(y - 1) * w + (x - 1) < w * h" using interior_index[OF x(2) y(2), of 0 0] by simp
  then obtain a1 where a1: "gray_at gray ((y - 1) * w + (x - 1)) = Num a1"
    using rd by blast
  have "(y - 1) * w + x < w * h" using interior_index[OF x(2) y(2), of 0 1] by simp
  then obtain a2 where a2: "gray_at gray ((y - 1) * w + x) = Num a2" "is_double a2"
    using rd by blast
  have "(y - 1) * w + (x + 1) < w * h" using interior_index[OF x(2) y(2), of 0 2] by simp
  then obtain a3 where a3: "gray_at gray ((y - 1) * w + (x + 1)) = Num a3"
    using rd by blast
  have "y * w + (x - 1) < w * h" using interior_index[OF x(2) y(2), of 1 0] by simp
  then obtain b1 where b1: "gray_at gray (y * w + (x - 1)) = Num b1" "is_double b1"
    using rd by blast
  have "y * w + x < w * h" using interior_index[OF x(2) y(2), of 1 1] by simp
  then obtain b2 where b2: "gray_at gray (y * w + x) = Num b2"
    using rd by blast
  have "y * w + (x + 1) < w * h" using interior_index[OF x(2) y(2), of 1 2] by simp
  then obtain b3 where b3: "gray_at gray (y * w + (x + 1)) = Num b3" "is_double b3"
    using rd by blast
  have "(y + 1) * w + (x - 1) < w * h" using interior_index[OF x(2) y(2), of 2 0] by simp
  then obtain c1 where c1: "gray_at gray ((y + 1) * w + (x - 1)) = Num c1"
    using rd by blast
  have "(y + 1) * w + x < w * h" using interior_index[OF x(2) y(2), of 2 1] by simp
  then obtain c2 where c2: "gray_at gray ((y + 1) * w + x) = Num c2" "is_double c2"
    using rd by blast
  have "(y + 1) * w + (x + 1) < w * h" using interior_index[OF x(2) y(2), of 2 2] by simp
  then obtain c3 where c3: "gray_at gray ((y + 1) * w + (x + 1)) = Num c3"
    using rd by blast
  define A where "A = jsadd (Num a2) (Num b1)"
  define B where "B = jsadd A (jsmul (Num (- 4)) (Num b2))"
  define C where "C = jsadd B (Num b3)"
  define D where "D = jsadd C (Num c2)"
  have vC: "js_value C" and vD: "js_value D" unfolding C_def D_def by (rule js_value_jsadd)+
  have s0: "jsadd (Num 0) (Num 0) = Num 0" by (simp add: to_double_0)
  have s1: "jsadd (Num 0) (Num a2) = Num a2" using a2(2) by (rule jsadd_zero_left)
  have s2: "jsadd (Num a2) (Num 0) = Num a2" using a2(2) by (intro jsadd_zero_right) simp
  have "convolve3 LAPLACIAN w gray x y =
        jsadd (jsadd (jsadd (jsadd (jsadd (jsadd (jsadd (jsadd (jsadd (Num 0) (Num 0)) (Num a2))
          (Num 0)) (Num b1)) (jsmul (Num (- 4)) (Num b2))) (Num b3)) (Num 0)) (Num c2)) (Num 0)"
    unfolding convolve3_LAPLACIAN a1 a2(1) a3 b1(1) b2 b3(1) c1 c2(1) c3
    by (simp only: foldl_Cons foldl_Nil jsmul_zero jsmul_one[OF a2(2)] jsmul_one[OF b1(2)]
        jsmul_one[OF b3(2)] jsmul_one[OF c2(2)])
  also have "\<dots> = jsadd (jsadd (jsadd C (Num 0)) (Num c2)) (Num 0)"
    by (simp only: s0 s1 s2 A_def B_def C_def)
  also have "\<dots> = D"
    by (simp only: jsadd_zero_right[OF vC] D_def[symmetric] jsadd_zero_right[OF vD])
  finally have conv: "convolve3 LAPLACIAN w gray x y = D" .
  have "lap_at w gray x y = D"
    unfolding lap_at_def a2(1) b1(1) b2 b3(1) c2(1) D_def C_def B_def A_def ..
  then show ?thesis using conv by simp
qed



lemma responses_are_convolutions:
  assumes "length gray = w * h"
    and "\<forall>i<length gray. \<exists>v. gray ! i = Num v \<and> is_double v"
  shows "responses w h gray = kernel_responses LAPLACIAN w h gray"
  unfolding responses_def kernel_responses_def
proof (rule map_cong[OF refl])
  fix p assume p: "p \<in> set (interior w h)"
  obtain x y where xy: "p = (x, y)" by (cases p)
  have "1 \<le> x \<and> x \<le> w - 2 \<and> 1 \<le> y \<and> y \<le> h - 2"
    using p unfolding set_interior xy by simp
  then have "1 \<le> x" "x + 1 < w" "1 \<le> y" "y + 1 < h" by linarith+
  then have "lap_at w gray x y = convolve3 LAPLACIAN w gray x y"
    by (rule lap_at_is_convolution[OF assms])
  then show "(case p of (x, y) \<Rightarrow> lap_at w gray x y)
           = (case p of (x, y) \<Rightarrow> convolve3 LAPLACIAN w gray x y)"
    unfolding xy by simp
qed

lemma grayscale_doubles:
  assumes "length data = 4 * n"
  shows "\<forall>i<length (grayscale data n). \<exists>v. grayscale data n ! i = Num v \<and> is_double v"
proof (intro allI impI)
  fix i assume "i < length (grayscale data n)"
  then have i: "i < n" by (simp add: grayscale_def)
  then have r: "i * 4 + 2 < length data" using assms by simp
  obtain v where v: "to_float32 (luminance (data ! (i * 4)) (data ! (i * 4 + 1)) (data ! (i * 4 + 2)))
                       = Num v" "small_double v"
    using gray_sample_small[of "data ! (i * 4)" "data ! (i * 4 + 1)" "data ! (i * 4 + 2)"] by blast
  have g: "gray_sample data i = Num v"
    unfolding gray_sample_def luminance_at_def using r v(1) by (simp only: if_True)
  have "\<bar>v\<bar> \<le> 2 ^ 20" using v(2) by (simp add: small_double_def)
  moreover have "(2::rat) ^ 20 < 2 ^ 1024" by simp
  ultimately have "\<bar>v\<bar> < 2 ^ 1024" by (rule le_less_trans)
  then have d: "is_double v" using v(2) by (simp add: is_double_def small_double_def)
  have "grayscale data n ! i = gray_sample data i" using i by (simp add: grayscale_def)
  then show "\<exists>v. grayscale data n ! i = Num v \<and> is_double v" using g d by simp
qed

lemma gray_loop_grayscale:
  "gray_loop data 0 (replicate n (Num 0)) = grayscale data n"
proof -
  have "gray_loop data 0 (replicate n (Num 0))
          = take 0 (replicate n (Num 0))
            @ map (gray_sample data) [0..<length (replicate n (Num 0))]"
    by (rule gray_loop_fill) simp
  then show ?thesis by (simp add: grayscale_def)
qed

lemma getLaplacianVariance_convolution:
  assumes dec: "decode imageSrc = Some img"
    and h: "scaledHeight img 160 = Num (of_nat h)" "0 < h"
    and len: "length (scaled img 160 h) = 4 * (160 * h)"
  shows "getLaplacianVariance True imageSrc
           = Resolved (spec_variance
               (kernel_responses LAPLACIAN 160 h (grayscale (scaled img 160 h) (160 * h))))"
proof -
  define gray where "gray = grayscale (scaled img 160 h) (160 * h)"
  have l: "length gray = 160 * h" by (simp add: gray_def grayscale_def)
  have d: "\<forall>i<length gray. \<exists>v. gray ! i = Num v \<and> is_double v"
    unfolding gray_def by (rule grayscale_doubles[OF len])
  have r: "responses 160 h gray = kernel_responses LAPLACIAN 160 h gray"
    by (rule responses_are_convolutions[OF l d])
  have v: "laplacianVariance 160 h gray = spec_variance (kernel_responses LAPLACIAN 160 h gray)"
    by (simp only: laplacianVariance_responses r)
  have g: "gray_loop (scaled img 160 h) 0 (replicate (160 * h) (Num 0)) = gray"
    unfolding gray_def by (rule gray_loop_grayscale)
  have hv: "\<not> (of_nat h :: rat) \<le> 0" "nat \<lfloor>of_nat h :: rat\<rfloor> = h" using h(2) by simp_all
  have "laplacian_onload True img = Resolved (laplacianVariance 160 h gray)"
    unfolding laplacian_onload_def Let_def h(1) by (simp only: jsnum.case hv g not_True_eq_False simp_thms if_False)
  then have "laplacian_onload True img
               = Resolved (spec_variance (kernel_responses LAPLACIAN 160 h gray))"
    by (simp only: v)
  then show ?thesis unfolding gray_def by (simp add: getLaplacianVariance_def dec)
qed


section \<open>Frame normalizer: which side is cropped, and by how much\<close>












section \<open>Capture controller: the guard and an attempt that never settles\<close>

lemma handleCapture_begin_blocked:
  "tooDark seen \<or> processing seen \<Longrightarrow> handleCapture_begin seen screenshot s = (s, None)"
  by (simp add: handleCapture_begin_def)

lemma handleCapture_start_blocked:
  "tooDark s \<or> processing s \<Longrightarrow> handleCapture_start screenshot s = (s, None)"
  by (simp add: handleCapture_start_def handleCapture_begin_blocked)

lemma fire_Capture_blocked:
  "tooDark (rendered pg) \<or> processing (rendered pg) \<Longrightarrow> fire (Capture screenshot) pg = pg"
  by (simp add: handleCapture_begin_blocked)

lemma processing_tick: "processing (tick seen ctx video s) = processing s"
  by (auto simp: tick_def split: option.splits)

lemma handleCapture_resize_rejected:
  assumes "\<not> tooDark s" "\<not> processing s"
    and "getLaplacianVariance ctx1 imageSrc = Resolved variance"
    and "\<not> jslt variance BLUR_THRESHOLD"
    and "resizeImage ctx2 imageSrc = Rejected e"
  shows "handleCapture ctx1 ctx2 (Some imageSrc) s
           = (s\<lparr>blurWarning := None, processing := True\<rparr>, Threw e)"
  using assms
  by (simp add: handleCapture_def handleCapture_start_def handleCapture_begin_def
      handleCapture_variance_def)

lemma resizeImage_rejects:
  "resizeImage ctx (DataURL None) = Rejected ''Failed to load image for resize''"
  "decode imageSrc = Some img \<Longrightarrow>
   resizeImage False imageSrc = Rejected ''Canvas context unavailable''"
  by (simp_all add: resizeImage_def resize_onload_def split: prod.splits)

lemma stuck_fire:
  assumes "stuck pg"
  shows "stuck (fire e pg)"
proof (cases e)
  case (Capture screenshot)
  then show ?thesis using assms by (simp add: stuck_def handleCapture_begin_def)
next
  case (Settle i ctx)
  have "getLaplacianVariance ctx (DataURL None) = Pending"
    by (simp add: getLaplacianVariance_def)
  then show ?thesis using assms Settle by (simp add: stuck_def settle_def)
next
  case (Tick ctx video)
  then show ?thesis using assms by (simp add: stuck_def processing_tick)
next
  case Retake
  then show ?thesis using assms by (simp add: stuck_def handleRetake_def)
next
  case FlashTimeout
  then show ?thesis using assms by (simp add: stuck_def)
next
  case Render
  then show ?thesis using assms by (simp add: stuck_def)
qed

lemma stuck_run: "stuck pg \<Longrightarrow> stuck (foldl (\<lambda>pg e. fire e pg) pg es)"
  by (induction es arbitrary: pg) (simp_all add: stuck_fire)






section \<open>Frame normalizer: the output size\<close>

text \<open>
  C1. For every source frame with positive width and height the normalizer, given a drawing
  context, resolves with an artifact; and every artifact it ever resolves with is a canvas of
  exactly 1024 by 585 pixels, painted over its full 1024 by 585 area, whatever the sides of
  the source frame are.
\<close>

theorem resizeImage_output_dimensions:
  "(0 < width img \<and> 0 < height img
      \<longrightarrow> (\<exists>a. resizeImage True (DataURL (Some img)) = Resolved a))
   \<and> (resizeImage ctx imageSrc = Resolved a
      \<longrightarrow> canvas_width a = 1024 \<and> canvas_height a = 585
          \<and> dx (drawn a) = 0 \<and> dy (drawn a) = 0
          \<and> dw (drawn a) = 1024 \<and> dh (drawn a) = 585)"
proof -
  have "resizeImage ctx imageSrc = Resolved a \<Longrightarrow>
        canvas_width a = OUTPUT_W \<and> canvas_height a = OUTPUT_H
        \<and> dx (drawn a) = 0 \<and> dy (drawn a) = 0
        \<and> dw (drawn a) = OUTPUT_W \<and> dh (drawn a) = OUTPUT_H"
    by (auto simp: resizeImage_def resize_onload_def split: option.splits prod.splits if_splits)
  moreover have "0 < width img \<and> 0 < height img \<Longrightarrow>
        \<exists>a. resizeImage True (DataURL (Some img)) = Resolved a"
    by (simp add: resizeImage_def resize_onload_def split: prod.splits)
  ultimately show ?thesis by (simp add: OUTPUT_W_def OUTPUT_H_def)
qed

theorem resizeImage_output_dimensions_witness:
  "\<exists>a. resizeImage True (DataURL (Some \<lparr>width = 1920, height = 1080, scaled = (\<lambda>w h. [])\<rparr>))
        = Resolved a
       \<and> canvas_width a = 1024 \<and> canvas_height a = 585"
proof -
  let ?img = "\<lparr>width = 1920, height = 1080, scaled = (\<lambda>w h. [])\<rparr>"
  have pos: "0 < width ?img \<and> 0 < height ?img" by simp
  from resizeImage_output_dimensions[of ?img True "DataURL (Some ?img)"] pos
  obtain a where a: "resizeImage True (DataURL (Some ?img)) = Resolved a" by blast
  with resizeImage_output_dimensions[of ?img True "DataURL (Some ?img)" a]
  have "canvas_width a = 1024 \<and> canvas_height a = 585" by blast
  with a show ?thesis by blast
qed

section \<open>Frame normalizer: the crop rectangle\<close>



section \<open>Frame normalizer: a frame that already has the output size\<close>

text \<open>
  C6. For a source frame of exactly 1024 by 585 pixels the crop rectangle is the whole
  frame (\<open>sx = 0\<close>, \<open>sy = 0\<close>, \<open>sw = 1024\<close>, \<open>sh = 585\<close>), the artifact is again
  1024 by 585, and the frame is drawn with scale factor exactly 1 in both directions.
\<close>

theorem resizeImage_identity_on_output_size:
  "centerCrop \<lparr>width = 1024, height = 585, scaled = f\<rparr> = (Num 0, Num 0, Num 1024, Num 585)
   \<and> resizeImage True (DataURL (Some \<lparr>width = 1024, height = 585, scaled = f\<rparr>))
       = Resolved \<lparr>canvas_width = 1024, canvas_height = 585, mime = ''image/png'',
                   drawn = \<lparr>sx = Num 0, sy = Num 0, sw = Num 1024, sh = Num 585,
                             dx = 0, dy = 0, dw = 1024, dh = 585\<rparr>,
                   source = \<lparr>width = 1024, height = 585, scaled = f\<rparr>\<rparr>
   \<and> scaleX \<lparr>sx = Num 0, sy = Num 0, sw = Num 1024, sh = Num 585,
               dx = 0, dy = 0, dw = 1024, dh = 585\<rparr> = Num 1
   \<and> scaleY \<lparr>sx = Num 0, sy = Num 0, sw = Num 1024, sh = Num 585,
               dx = 0, dy = 0, dw = 1024, dh = 585\<rparr> = Num 1"
proof -
  have one: "to_double 1 = Num 1"
    using to_double_exact[OF is_double_of_int[of 1]] by simp
  have "scaleX \<lparr>sx = Num 0, sy = Num 0, sw = Num 1024, sh = Num 585,
               dx = 0, dy = 0, dw = 1024, dh = 585\<rparr> = Num 1"
    by (simp add: scaleX_def js_nat_numeral one)
  moreover have "scaleY \<lparr>sx = Num 0, sy = Num 0, sw = Num 1024, sh = Num 585,
               dx = 0, dy = 0, dw = 1024, dh = 585\<rparr> = Num 1"
    by (simp add: scaleY_def js_nat_numeral one)
  moreover have "resizeImage True (DataURL (Some \<lparr>width = 1024, height = 585, scaled = f\<rparr>))
       = Resolved \<lparr>canvas_width = 1024, canvas_height = 585, mime = ''image/png'',
                   drawn = \<lparr>sx = Num 0, sy = Num 0, sw = Num 1024, sh = Num 585,
                             dx = 0, dy = 0, dw = 1024, dh = 585\<rparr>,
                   source = \<lparr>width = 1024, height = 585, scaled = f\<rparr>\<rparr>"
    by (simp add: resizeImage_def resize_onload_def centerCrop_1024_585 OUTPUT_W_def OUTPUT_H_def)
  ultimately show ?thesis using centerCrop_1024_585[of f] by simp
qed

section \<open>Sharpness estimator: interior pixels and variance\<close>

text \<open>
  C3. The score of the estimator is the variance of the responses of the 3 by 3 Laplacian
  kernel \<open>[[0, 1, 0], [1, -4, 1], [0, 1, 0]]\<close> at the interior pixels of the downscaled
  grayscale image. For a grayscale buffer of width \<open>w\<close> and height \<open>h\<close> whose entries
  are numbers, the two loops return \<open>mean(response\<^sup>2) - mean(response)\<^sup>2\<close> over the
  kernel responses, in the double arithmetic of the page and summed in row order. The
  kernel is applied at the interior pixels only, \<open>x\<close> from 1 to \<open>w - 2\<close> and \<open>y\<close>
  from 1 to \<open>h - 2\<close>, each once, so the loop counts \<open>(w - 2) (h - 2)\<close> responses. And
  for a still that decodes and is downscaled to 160 by \<open>n\<close> pixels (four bytes a pixel),
  \<open>getLaplacianVariance\<close> resolves with that variance over the grayscale values of the
  downscaled copy. This holds for every \<open>w\<close> and \<open>h\<close>, in particular for
  \<open>w \<ge> 3\<close> and \<open>h \<ge> 3\<close>.
\<close>

theorem laplacianVariance_over_interior:
  "(length gray = w * h \<and> (\<forall>i<length gray. \<exists>v. gray ! i = Num v \<and> is_double v)
      \<longrightarrow> laplacianVariance w h gray = spec_variance (kernel_responses LAPLACIAN w h gray))
   \<and> snd (snd (outer_loop w h gray 1 (Num 0, Num 0, 0))) = (w - 2) * (h - 2)
   \<and> length (kernel_responses LAPLACIAN w h gray) = (w - 2) * (h - 2)
   \<and> set (interior w h) = {(x, y). 1 \<le> x \<and> x \<le> w - 2 \<and> 1 \<le> y \<and> y \<le> h - 2}
   \<and> distinct (interior w h)
   \<and> (decode imageSrc = Some img \<and> scaledHeight img 160 = Num (of_nat n) \<and> 0 < n
        \<and> length (scaled img 160 n) = 4 * (160 * n)
      \<longrightarrow> getLaplacianVariance True imageSrc
            = Resolved (spec_variance
                (kernel_responses LAPLACIAN 160 n (grayscale (scaled img 160 n) (160 * n)))))"
proof -
  have 1: "laplacianVariance w h gray = spec_variance (kernel_responses LAPLACIAN w h gray)"
    if "length gray = w * h" "\<forall>i<length gray. \<exists>v. gray ! i = Num v \<and> is_double v"
    using responses_are_convolutions[OF that] by (simp only: laplacianVariance_responses)
  have 2: "snd (snd (outer_loop w h gray 1 (Num 0, Num 0, 0))) = (w - 2) * (h - 2)"
    using length_responses[of w h gray] by (simp add: outer_loop_fold responses_rows)
  have 3: "length (kernel_responses LAPLACIAN w h gray) = (w - 2) * (h - 2)"
    using length_responses[of w h gray] by (simp add: kernel_responses_def responses_def)
  have 6: "getLaplacianVariance True imageSrc
            = Resolved (spec_variance
                (kernel_responses LAPLACIAN 160 n (grayscale (scaled img 160 n) (160 * n))))"
    if "decode imageSrc = Some img" "scaledHeight img 160 = Num (of_nat n)" "0 < n"
       "length (scaled img 160 n) = 4 * (160 * n)"
    using that by (rule getLaplacianVariance_convolution)
  show ?thesis using 1 2 3 set_interior distinct_interior 6 by blast
qed

theorem laplacianVariance_over_interior_witness:
  "laplacianVariance 3 3 (replicate 9 (Num 1))
     = spec_variance (kernel_responses LAPLACIAN 3 3 (replicate 9 (Num 1)))
   \<and> getLaplacianVariance True
       (DataURL (Some \<lparr>width = 160, height = 120, scaled = (\<lambda>w h. replicate (4 * w * h) 128)\<rparr>))
     = Resolved (spec_variance (kernel_responses LAPLACIAN 160 120
         (grayscale (replicate (4 * 160 * 120) 128) (160 * 120))))"
proof -
  let ?img = "\<lparr>width = 160, height = 120, scaled = (\<lambda>w h. replicate (4 * w * h) (128 :: 8 word))\<rparr>"
  have one: "is_double 1" using is_double_of_int[of 1] by simp
  have g: "length (replicate 9 (Num 1)) = 3 * 3
           \<and> (\<forall>i<length (replicate 9 (Num 1)). \<exists>v. replicate 9 (Num 1) ! i = Num v \<and> is_double v)"
    using one by simp
  have a: "laplacianVariance 3 3 (replicate 9 (Num 1))
     = spec_variance (kernel_responses LAPLACIAN 3 3 (replicate 9 (Num 1)))"
    using laplacianVariance_over_interior[of "replicate 9 (Num 1)" 3 3] g by blast
  have i: "decode (DataURL (Some ?img)) = Some ?img \<and> scaledHeight ?img 160 = Num (of_nat 120)
           \<and> (0::nat) < 120 \<and> length (scaled ?img 160 120) = 4 * (160 * 120)"
    using scaledHeight_160_120 by simp
  have b: "getLaplacianVariance True (DataURL (Some ?img))
     = Resolved (spec_variance (kernel_responses LAPLACIAN 160 120
         (grayscale (scaled ?img 160 120) (160 * 120))))"
    using laplacianVariance_over_interior[where imageSrc = "DataURL (Some ?img)" and img = ?img
        and n = 120] i by blast
  show ?thesis using a b by simp
qed


section \<open>Sharpness estimator: a flat image\<close>

text \<open>
  C8. Let the still be an image of one solid colour: every pixel of the 160 by \<open>h\<close>
  downscaled copy (four bytes a pixel) has the same red, green and blue bytes, and
  \<open>h \<ge> 3\<close> (the width 160 is at least 3 anyway). Then the estimator resolves with a score of exactly 0, which is below
  the blur floor 5, and the capture attempt ends rejected as blurry: the warning is set,
  \<open>processing\<close> is cleared and no artifact is stored.
\<close>

theorem flat_image_scores_zero_and_is_rejected:
  assumes "decode imageSrc = Some img"
    and "scaledHeight img 160 = Num (of_nat h)" and "3 \<le> h"
    and "length (scaled img 160 h) = 4 * (160 * h)"
    and "\<forall>i<160 * h. scaled img 160 h ! (i * 4) = r
            \<and> scaled img 160 h ! (i * 4 + 1) = g
            \<and> scaled img 160 h ! (i * 4 + 2) = b"
    and "\<not> tooDark s" and "\<not> processing s"
  shows "getLaplacianVariance True imageSrc = Resolved (Num 0)
       \<and> jslt (Num 0) BLUR_THRESHOLD
       \<and> handleCapture True ctx2 (Some imageSrc) s
           = (s\<lparr>blurWarning := Some blurMessage, processing := False\<rparr>, Returned)"
proof -
  have v: "getLaplacianVariance True imageSrc = Resolved (Num 0)"
    using assms(1-5) by (rule getLaplacianVariance_flat)
  have lt: "jslt (Num 0) BLUR_THRESHOLD" by (simp add: BLUR_THRESHOLD_def)
  have "handleCapture True ctx2 (Some imageSrc) s
           = (s\<lparr>blurWarning := Some blurMessage, processing := False\<rparr>, Returned)"
    using assms(6,7)
    by (simp add: handleCapture_def handleCapture_start_def handleCapture_begin_def
        handleCapture_variance_def v lt)
  then show ?thesis using v lt by simp
qed

theorem flat_image_scores_zero_and_is_rejected_witness:
  "getLaplacianVariance True
     (DataURL (Some \<lparr>width = 160, height = 120, scaled = (\<lambda>w h. replicate (4 * w * h) 128)\<rparr>))
     = Resolved (Num 0)
   \<and> handleCapture True True
       (Some (DataURL (Some \<lparr>width = 160, height = 120,
                              scaled = (\<lambda>w h. replicate (4 * w * h) 128)\<rparr>))) initial
     = (initial\<lparr>blurWarning := Some blurMessage, processing := False\<rparr>, Returned)"
proof -
  let ?img = "\<lparr>width = 160, height = 120, scaled = (\<lambda>w h. replicate (4 * w * h) (128 :: 8 word))\<rparr>"
  have 1: "decode (DataURL (Some ?img)) = Some ?img" by simp
  have 2: "scaledHeight ?img 160 = Num (of_nat 120)" by (rule scaledHeight_160_120)
  have 3: "(3::nat) \<le> 120" by simp
  have l: "length (scaled ?img 160 120) = 4 * (160 * 120)" by simp
  have 4: "\<forall>i<160 * 120. scaled ?img 160 120 ! (i * 4) = 128
            \<and> scaled ?img 160 120 ! (i * 4 + 1) = 128
            \<and> scaled ?img 160 120 ! (i * 4 + 2) = 128"
    by simp
  have 5: "\<not> tooDark initial" by (simp add: tooDark_def initial_def BRIGHTNESS_THRESHOLD_def)
  have 6: "\<not> processing initial" by (simp add: initial_def)
  show ?thesis
    using flat_image_scores_zero_and_is_rejected[OF 1 2 3 l 4 5 6, of True] by simp
qed

section \<open>Brightness sampler: black and white frames\<close>

text \<open>
  C7. The sample canvas holds 64 by 48 pixels, four bytes each. If every red, green and blue
  sample is 0, \<open>getAverageBrightness\<close> returns exactly 0; if every one is 255, it returns
  exactly 255. Both are results of the double arithmetic of the page: the three products and
  two sums of \<open>0.299 R + 0.587 G + 0.114 B\<close> round to 255 for a white pixel, and the
  3072 additions and the final division are exact.
\<close>

theorem getAverageBrightness_black_and_white:
  assumes "length (scaled video 64 48) = 4 * 64 * 48"
  shows "((\<forall>j<4 * 64 * 48. j mod 4 \<noteq> 3 \<longrightarrow> scaled video 64 48 ! j = 0)
            \<longrightarrow> getAverageBrightness True video = Num 0)
       \<and> ((\<forall>j<4 * 64 * 48. j mod 4 \<noteq> 3 \<longrightarrow> scaled video 64 48 ! j = 255)
            \<longrightarrow> getAverageBrightness True video = Num 255)"
proof -
  have "getAverageBrightness True video = Num (of_nat 0)"
    if "\<forall>j<4 * 64 * 48. j mod 4 \<noteq> 3 \<longrightarrow> scaled video 64 48 ! j = 0"
    by (rule getAverageBrightness_uniform_value[OF assms that]) (simp_all add: luminance_black)
  moreover have "getAverageBrightness True video = Num (of_nat 255)"
    if "\<forall>j<4 * 64 * 48. j mod 4 \<noteq> 3 \<longrightarrow> scaled video 64 48 ! j = 255"
    by (rule getAverageBrightness_uniform_value[OF assms that]) (simp_all add: luminance_white)
  ultimately show ?thesis by simp
qed

theorem getAverageBrightness_black_and_white_witness:
  "getAverageBrightness True \<lparr>width = 64, height = 48, scaled = (\<lambda>w h. replicate (4 * w * h) 255)\<rparr>
     = Num 255
   \<and> getAverageBrightness True \<lparr>width = 64, height = 48, scaled = (\<lambda>w h. replicate (4 * w * h) 0)\<rparr>
     = Num 0"
  using getAverageBrightness_black_and_white
          [of "\<lparr>width = 64, height = 48, scaled = (\<lambda>w h. replicate (4 * w * h) 255)\<rparr>"]
        getAverageBrightness_black_and_white
          [of "\<lparr>width = 64, height = 48, scaled = (\<lambda>w h. replicate (4 * w * h) 0)\<rparr>"]
  by simp

section \<open>Brightness sampler: the fallback without a drawing context\<close>

text \<open>
  C10. When \<open>getAverageBrightness\<close> gets no 2D context it returns 255, the largest
  brightness score, whatever the frame shows. A poll tick that stores this value leaves the
  controller not too dark, and a capture action that follows is not held back by the
  brightness gate: unless an evaluation is already in flight, it goes on to the sharpness
  check of the screenshot.
\<close>

theorem getAverageBrightness_no_context:
  "getAverageBrightness False video = Num 255
   \<and> \<not> tooDark (s\<lparr>brightness := getAverageBrightness False video\<rparr>)
   \<and> (capturedImage s = None \<and> 2 \<le> readyState
        \<longrightarrow> \<not> tooDark (poll False (Some (readyState, video)) s)
            \<and> (\<not> processing s
                 \<longrightarrow> snd (handleCapture_start (Some imageSrc)
                            (poll False (Some (readyState, video)) s)) = Some imageSrc))"
proof -
  have v: "getAverageBrightness False video = Num 255"
    by (simp add: getAverageBrightness_def)
  have d: "\<not> tooDark (s\<lparr>brightness := Num 255\<rparr>)"
    by (simp add: tooDark_def BRIGHTNESS_THRESHOLD_def)
  have p: "poll False (Some (readyState, video)) s = s\<lparr>brightness := Num 255\<rparr>"
    if "capturedImage s = None" "2 \<le> readyState"
    using that by (simp add: poll_def tick_def v)
  have g: "snd (handleCapture_start (Some imageSrc) (s\<lparr>brightness := Num 255\<rparr>)) = Some imageSrc"
    if "\<not> processing s"
    using that d by (simp add: handleCapture_start_def handleCapture_begin_def)
  show ?thesis using v d p g by simp
qed

theorem getAverageBrightness_no_context_witness:
  "capturedImage initial = None \<and> (2::nat) \<le> 4 \<and> \<not> processing initial
   \<and> \<not> tooDark (poll False (Some (4, \<lparr>width = 640, height = 480, scaled = (\<lambda>w h. [])\<rparr>)) initial)
   \<and> snd (handleCapture_start (Some (DataURL None))
           (poll False (Some (4, \<lparr>width = 640, height = 480, scaled = (\<lambda>w h. [])\<rparr>)) initial))
       = Some (DataURL None)"
proof -
  have h: "capturedImage initial = None" "(2::nat) \<le> 4" "\<not> processing initial"
    by (simp_all add: initial_def)
  show ?thesis
    using getAverageBrightness_no_context
      [of "\<lparr>width = 640, height = 480, scaled = (\<lambda>w h. [])\<rparr>" initial 4 "DataURL None"] h
    by blast
qed

section \<open>Capture controller: the capture action while dark or busy\<close>


section \<open>Capture controller: a still that fails to load\<close>

text \<open>
  C5. When the still fails to decode during sharpness estimation, the attempt stays
  suspended with \<open>processing\<close> set: the estimator's promise has no error handler and
  never settles. Once the page has rendered that state, whatever events follow,
  \<open>processing\<close> stays set and every capture action is ignored; the controller does not
  return to a state in which a capture can be taken.
\<close>

theorem decode_failure_leaves_processing_set:
  "handleCapture True True (Some (DataURL None)) initial
     = (initial\<lparr>blurWarning := None, processing := True\<rparr>, Suspended)
   \<and> processing (ui (foldl (\<lambda>pg e. fire e pg)
                      (fire Render (fire (Capture (Some (DataURL None))) start_page)) es))
   \<and> fire (Capture screenshot)
        (foldl (\<lambda>pg e. fire e pg)
           (fire Render (fire (Capture (Some (DataURL None))) start_page)) es)
       = foldl (\<lambda>pg e. fire e pg)
           (fire Render (fire (Capture (Some (DataURL None))) start_page)) es"
proof -
  let ?pg = "fire Render (fire (Capture (Some (DataURL None))) start_page)"
  have d: "\<not> tooDark initial" "\<not> processing initial"
    by (simp_all add: tooDark_def initial_def BRIGHTNESS_THRESHOLD_def)
  have 1: "handleCapture True True (Some (DataURL None)) initial
     = (initial\<lparr>blurWarning := None, processing := True\<rparr>, Suspended)"
    using d
    by (simp add: handleCapture_def handleCapture_start_def handleCapture_begin_def
        getLaplacianVariance_def)
  have "stuck ?pg"
    using d by (simp add: stuck_def start_page_def handleCapture_begin_def)
  then have s: "stuck (foldl (\<lambda>pg e. fire e pg) ?pg es)" by (rule stuck_run)
  then have 2: "processing (ui (foldl (\<lambda>pg e. fire e pg) ?pg es))" by (simp add: stuck_def)
  have "processing (rendered (foldl (\<lambda>pg e. fire e pg) ?pg es))"
    using s by (simp add: stuck_def)
  then have 3: "fire (Capture screenshot) (foldl (\<lambda>pg e. fire e pg) ?pg es)
                  = foldl (\<lambda>pg e. fire e pg) ?pg es"
    by (intro fire_Capture_blocked) simp
  show ?thesis using 1 2 3 by simp
qed

section \<open>Upload route: what the validation does decide\<close>

lemma POST_rejects_unknown_type:
  assumes "ALLOWED_TYPES (ftype f) = Undefined"
  shows "POST srv (Form (FileValue f)) = (\<lparr>status = 400, json = UnsupportedType (ftype f)\<rparr>, [])"
  using assms by (simp add: POST_def)

lemma POST_rejects_oversize:
  assumes "MAX_FILE_SIZE < fsize f"
  shows "status (fst (POST srv (Form (FileValue f)))) = 400 \<and> snd (POST srv (Form (FileValue f))) = []"
  using assms by (simp add: POST_def Let_def)

lemma POST_stores_allowed:
  assumes "ftype f \<in> {''image/png'', ''image/jpeg'', ''image/webp''}"
    and "fsize f \<le> MAX_FILE_SIZE"
    and "mkdir_error srv = None" and "writeFile_error srv = None"
  shows "\<exists>name. POST srv (Form (FileValue f))
           = (\<lparr>status = 201, json = Stored name (''/uploads/'' @ name) (fsize f) (ftype f)\<rparr>,
              [(UPLOADS_DIR srv @ ''/'' @ name, content f)])"
  using assms by (auto simp: POST_def ALLOWED_TYPES_def Let_def)

section \<open>Upload route: a type that only the prototype knows\<close>

text \<open>
  C9. A file whose MIME type is \<open>constructor\<close> is none of the three allowed types, yet the
  handler answers 201 and writes the file: the lookup finds \<open>Object.prototype.constructor\<close>.
\<close>

theorem POST_accepts_constructor_type:
  "POST \<lparr>UPLOADS_DIR = ''public/uploads'', uuid = ''u'', mkdir_error = None, writeFile_error = None\<rparr>
        (Form (FileValue \<lparr>ftype = ''constructor'', content = [1, 2, 3]\<rparr>))
   = (\<lparr>status = 201,
       json = Stored ''ufunction Object() { [native code] }''
                     ''/uploads/ufunction Object() { [native code] }'' 3 ''constructor''\<rparr>,
      [(''public/uploads/ufunction Object() { [native code] }'', [1, 2, 3])])"
  by (simp add: POST_def ALLOWED_TYPES_def Object_prototype_def native_function_def
      fsize_def MAX_FILE_SIZE_def Let_def)

end
